theory Spec2Isabelle
  imports Complex_Main
begin

section \<open>Strings\<close>

text \<open>
  A JavaScript string is modelled as a HOL \<open>string\<close>: a list of code units below 256.
  \<open>String.prototype.trim\<close> and the regular expression class \<open>\s\<close> agree on the
  white space among those code units: TAB, LF, VT, FF, CR, SPACE and NBSP.
\<close>

definition is_ws :: "char \<Rightarrow> bool" where
  "is_ws c \<longleftrightarrow> c \<in> set [CHR 0x09, CHR 0x0A, CHR 0x0B, CHR 0x0C, CHR 0x0D, CHR 0x20, CHR 0xA0]"

definition trim :: "string \<Rightarrow> string" where
  "trim s = rev (dropWhile is_ws (rev (dropWhile is_ws s)))"

section \<open>CSV parsing\<close>

text \<open>
  \<open>csvText.replace(/\r\n/g, '\n').replace(/\r/g, '\n').split('\n')\<close>: the two
  replacements, then the split at every LF. \<open>split\<close> of a JavaScript string always
  gives at least one piece.
\<close>

fun replace_crlf :: "string \<Rightarrow> string" where
  "replace_crlf [] = []"
| "replace_crlf [c] = [c]"
| "replace_crlf (c # d # cs) =
     (if c = CHR 0x0D \<and> d = CHR 0x0A then CHR 0x0A # replace_crlf cs
      else c # replace_crlf (d # cs))"

definition replace_cr :: "string \<Rightarrow> string" where
  "replace_cr s = map (\<lambda>c. if c = CHR 0x0D then CHR 0x0A else c) s"

fun split_lf :: "string \<Rightarrow> string \<Rightarrow> string list" where
  "split_lf cur [] = [cur]"
| "split_lf cur (c # cs) =
     (if c = CHR 0x0A then cur # split_lf [] cs else split_lf (cur @ [c]) cs)"

definition csv_lines :: "string \<Rightarrow> string list" where
  "csv_lines csvText =
     filter (\<lambda>l. length l > 0) (split_lf [] (replace_cr (replace_crlf csvText)))"

text \<open>
  The body of the \<open>for\<close> loop over one line. The state is \<open>result\<close>, \<open>current\<close> and
  \<open>inQuotes\<close>; \<open>line[i + 1]\<close> past the end is \<open>undefined\<close>, which is not a quote.
  The first branch consumes two characters (\<open>i++\<close> inside the body), whatever
  \<open>inQuotes\<close> is.
\<close>

fun parse_chars :: "string \<Rightarrow> string list \<Rightarrow> string \<Rightarrow> bool \<Rightarrow> string list" where
  "parse_chars [] result current inQuotes = result @ [current]"
| "parse_chars [c] result current inQuotes =
     (if c = CHR 0x22 then parse_chars [] result current (\<not> inQuotes)
      else if c = CHR '','' \<and> \<not> inQuotes then parse_chars [] (result @ [current]) [] inQuotes
      else parse_chars [] result (current @ [c]) inQuotes)"
| "parse_chars (c # d # cs) result current inQuotes =
     (if c = CHR 0x22 \<and> d = CHR 0x22 then parse_chars cs result (current @ [CHR 0x22]) inQuotes
      else if c = CHR 0x22 then parse_chars (d # cs) result current (\<not> inQuotes)
      else if c = CHR '','' \<and> \<not> inQuotes then parse_chars (d # cs) (result @ [current]) [] inQuotes
      else parse_chars (d # cs) result (current @ [c]) inQuotes)"

definition parse_line :: "string \<Rightarrow> string list" where
  "parse_line line = parse_chars line [] [] False"

datatype js_error = TypeError | Error string

record parsed_csv =
  headers :: "string list"
  rows :: "string list list"

text \<open>
  \<open>rows[0].map\<close> throws a TypeError when no line is left; otherwise the first parsed
  row, each cell trimmed, is the header row and the rest are the data rows.
\<close>

definition parseCSV :: "string \<Rightarrow> js_error + parsed_csv" where
  "parseCSV csvText =
     (case map parse_line (csv_lines csvText) of
        [] \<Rightarrow> Inl TypeError
      | r # rs \<Rightarrow> Inr \<lparr>headers = map trim r, rows = rs\<rparr>)"

section \<open>Header normalisation\<close>

text \<open>
  \<open>toLowerCase\<close> on code units below 256 moves A-Z and the Latin-1 capitals
  (0xC0-0xDE without the multiplication sign 0xD7) up by 32.
\<close>

definition toLowerCase_char :: "char \<Rightarrow> char" where
  "toLowerCase_char c =
     (let n = (of_char c :: nat)
      in if (65 \<le> n \<and> n \<le> 90) \<or> (192 \<le> n \<and> n \<le> 222 \<and> n \<noteq> 215)
         then char_of (n + 32) else c)"

definition toLowerCase :: "string \<Rightarrow> string" where
  "toLowerCase s = map toLowerCase_char s"

text \<open>\<open>replace(/\s+/g, r)\<close>: every maximal run of white space becomes one \<open>r\<close>.\<close>

function replace_ws_runs :: "char \<Rightarrow> string \<Rightarrow> string" where
  "replace_ws_runs r [] = []"
| "replace_ws_runs r (c # cs) =
     (if is_ws c then r # replace_ws_runs r (dropWhile is_ws cs)
      else c # replace_ws_runs r cs)"
  by pat_completeness auto
termination
  by (relation "measure (\<lambda>(r, s). length s)")
     (auto simp: length_dropWhile_le less_Suc_eq_le)

definition normalizeHeaderForMap :: "string \<Rightarrow> string" where
  "normalizeHeaderForMap key =
     trim (replace_ws_runs (CHR '' '')
       (map (\<lambda>c. if c = CHR ''_'' \<or> c = CHR ''-'' then CHR '' '' else c) (toLowerCase key)))"

definition HEADER_MAP :: "(string \<times> string) list" where
  "HEADER_MAP =
     [(''register no'', ''register_no''),
      (''register_no'', ''register_no''),
      (''reg no'', ''register_no''),
      (''registration number'', ''register_no''),
      (''name'', ''name''),
      (''father name'', ''father_name''),
      (''mother name'', ''mother_name''),
      (''address'', ''address''),
      (''class'', ''class''),
      (''year'', ''year''),
      (''department'', ''department''),
      (''cia-1 mark'', ''cia_1_mark''),
      (''cia 1 mark'', ''cia_1_mark''),
      (''cia1'', ''cia_1_mark''),
      (''cia-2 mark'', ''cia_2_mark''),
      (''cia 2 mark'', ''cia_2_mark''),
      (''cia2'', ''cia_2_mark''),
      (''present to class (today)'', ''present_today''),
      (''present today'', ''present_today''),
      (''leave taken'', ''leave_taken''),
      (''email'', ''email''),
      (''mail'', ''email''),
      (''phone number'', ''phone_number''),
      (''phone'', ''phone_number''),
      (''mobile'', ''phone_number'')]"

text \<open>
  \<open>HEADER_MAP\<close> is an object literal, so \<open>HEADER_MAP[norm]\<close> also finds the properties
  it inherits from \<open>Object.prototype\<close>. Each of them is a truthy object, which
  \<open>index[mapped] = i\<close> then turns into a property key by \<open>ToString\<close>; the table gives
  that key as Node prints it.
\<close>

definition Object_prototype :: "(string \<times> string) list" where
  "Object_prototype =
     [(''constructor'', ''function Object() { [native code] }''),
      (''__defineGetter__'', ''function __defineGetter__() { [native code] }''),
      (''__defineSetter__'', ''function __defineSetter__() { [native code] }''),
      (''hasOwnProperty'', ''function hasOwnProperty() { [native code] }''),
      (''__lookupGetter__'', ''function __lookupGetter__() { [native code] }''),
      (''__lookupSetter__'', ''function __lookupSetter__() { [native code] }''),
      (''isPrototypeOf'', ''function isPrototypeOf() { [native code] }''),
      (''propertyIsEnumerable'', ''function propertyIsEnumerable() { [native code] }''),
      (''toString'', ''function toString() { [native code] }''),
      (''valueOf'', ''function valueOf() { [native code] }''),
      (''__proto__'', ''[object Object]''),
      (''toLocaleString'', ''function toLocaleString() { [native code] }'')]"

text \<open>
  \<open>HEADER_MAP[norm] || norm.replace(/\s+/g, '_')\<close>, as the property key it is used for.
  Every own value of the table is a non-empty string, hence truthy.
\<close>

definition mapped_header :: "string \<Rightarrow> string" where
  "mapped_header h =
     (let norm = normalizeHeaderForMap h
      in case map_of HEADER_MAP norm of
           Some v \<Rightarrow> v
         | None \<Rightarrow>
             (case map_of Object_prototype norm of
                Some inherited \<Rightarrow> inherited
              | None \<Rightarrow> replace_ws_runs (CHR ''_'') norm))"

text \<open>\<open>headers.forEach((h, i) => { ... index[mapped] = i; })\<close>, from the empty object.\<close>

definition buildHeaderIndex :: "string list \<Rightarrow> (string \<rightharpoonup> nat)" where
  "buildHeaderIndex hs =
     fold (\<lambda>(i, h) index. index(mapped_header h \<mapsto> i)) (enumerate 0 hs) Map.empty"

section \<open>Numbers\<close>

text \<open>
  A JavaScript number is an IEEE 754 binary64 value: a finite double, one of the two
  infinities, or NaN. A finite double is modelled by its exact rational value. The two
  zeros are not distinguished: they compare equal, both are falsy, and
  \<open>JSON.stringify\<close> writes both as 0.
\<close>

datatype number = Fin rat | PosInf | NegInf | NaN

text \<open>
  The binary exponent of a positive rational, by repeated halving or doubling:
  \<open>ilog2 x\<close> is the integer \<open>e\<close> with \<open>2 powi e \<le> x < 2 powi (e + 1)\<close>.
\<close>

function halvings :: "rat \<Rightarrow> nat" where
  "halvings x = (if x < 2 then 0 else Suc (halvings (x / 2)))"
  by pat_completeness auto
termination
proof (relation "measure (\<lambda>x. nat \<lfloor>x\<rfloor>)")
  show "wf (measure (\<lambda>x::rat. nat \<lfloor>x\<rfloor>))" by simp
next
  fix x :: rat
  assume "\<not> x < 2"
  then have x: "2 \<le> x" by simp
  have "\<lfloor>x / 2\<rfloor> < \<lfloor>x\<rfloor>"
  proof -
    have "x / 2 < of_int \<lfloor>x\<rfloor>"
    proof -
      have "x < of_int \<lfloor>x\<rfloor> + 1" using floor_correct [of x] by simp
      moreover have "(2::rat) \<le> of_int \<lfloor>x\<rfloor>" using x by (simp add: le_floor_iff)
      ultimately show ?thesis by linarith
    qed
    then show ?thesis by (simp add: floor_less_iff)
  qed
  moreover have "0 < \<lfloor>x\<rfloor>" using x by (simp add: less_floor_iff)
  ultimately show "(x / 2, x) \<in> measure (\<lambda>x. nat \<lfloor>x\<rfloor>)" by simp
qed

function doublings :: "rat \<Rightarrow> nat" where
  "doublings x = (if x \<le> 0 \<or> 1 \<le> x then 0 else Suc (doublings (2 * x)))"
  by pat_completeness auto
termination
proof (relation "measure (\<lambda>x. nat \<lceil>1 / x\<rceil>)")
  show "wf (measure (\<lambda>x::rat. nat \<lceil>1 / x\<rceil>))" by simp
next
  fix x :: rat
  assume "\<not> (x \<le> 0 \<or> 1 \<le> x)"
  then have x: "0 < x" "x < 1" by simp_all
  define y where "y = 1 / x"
  have y: "1 < y" unfolding y_def using x by simp
  have e: "1 / (2 * x) = y / 2" by (simp add: y_def)
  have lt: "\<lceil>y / 2\<rceil> < \<lceil>y\<rceil>"
  proof -
    define c :: rat where "c = of_int \<lceil>y\<rceil>"
    have "y \<le> c" unfolding c_def by (rule le_of_int_ceiling)
    moreover have "2 \<le> c"
    proof -
      have "1 < \<lceil>y\<rceil>" using y by (simp add: less_ceiling_iff)
      then have "2 \<le> \<lceil>y\<rceil>" by simp
      then show ?thesis unfolding c_def by (metis of_int_le_iff of_int_numeral)
    qed
    ultimately have "y / 2 \<le> c - 1" by linarith
    then have "y / 2 \<le> of_int (\<lceil>y\<rceil> - 1)" by (simp add: c_def)
    then have "\<lceil>y / 2\<rceil> \<le> \<lceil>y\<rceil> - 1" by (simp only: ceiling_le_iff)
    then show ?thesis by simp
  qed
  have pos: "0 < \<lceil>y\<rceil>" using y by (simp add: less_ceiling_iff)
  have "nat \<lceil>1 / (2 * x)\<rceil> < nat \<lceil>1 / x\<rceil>"
    unfolding e y_def [symmetric] using lt pos by linarith
  then show "(2 * x, x) \<in> measure (\<lambda>x. nat \<lceil>1 / x\<rceil>)" by simp
qed

declare halvings.simps [simp del] doublings.simps [simp del]

definition ilog2 :: "rat \<Rightarrow> int" where
  "ilog2 x = (if 1 \<le> x then int (halvings x) else - int (doublings x))"

text \<open>
  The spacing of the doubles around \<open>x\<close>: 53 significant bits, and the fixed spacing
  \<open>2 powi (- 1074)\<close> of the subnormal numbers below \<open>2 powi (- 1022)\<close>.
\<close>

definition quantum :: "rat \<Rightarrow> rat" where
  "quantum x = 2 powi (max (ilog2 \<bar>x\<bar> - 52) (- 1074))"

text \<open>The nearest integer, a tie going to the even one.\<close>

definition round_half_even :: "rat \<Rightarrow> int" where
  "round_half_even z =
     (let f = \<lfloor>z\<rfloor>; d = z - of_int f
      in if d < 1 / 2 then f else if 1 / 2 < d then f + 1 else if even f then f else f + 1)"

text \<open>The multiple of the spacing nearest to \<open>x\<close>: the rounding with an unbounded exponent.\<close>

definition nearest :: "rat \<Rightarrow> rat" where
  "nearest x = of_int (round_half_even (x / quantum x)) * quantum x"

text \<open>
  The double that an arithmetic operation returns for the exact result \<open>x\<close>: round to
  nearest, ties to even, and an infinity once the rounded value reaches \<open>2 ^ 1024\<close>.
\<close>

definition round_double :: "rat \<Rightarrow> number" where
  "round_double x =
     (if x = 0 then Fin 0
      else (let y = nearest x
            in if 2 ^ 1024 \<le> y then PosInf else if y \<le> - (2 ^ 1024) then NegInf else Fin y))"

section \<open>Rows\<close>

text \<open>
  A row is a JavaScript object with a fixed set of property names, modelled as a record
  of optional slots: \<open>None\<close> is the absent property, which reads as \<open>undefined\<close>, and
  \<open>Some v\<close> the property with the value \<open>v\<close>. A numeric field read from the sheet
  holds \<open>null\<close> or a finite number; the derived percentage is any number.
\<close>

datatype jsnum = Null | Num rat

record student =
  register_no :: "string option"
  name :: "string option"
  father_name :: "string option"
  mother_name :: "string option"
  address :: "string option"
  className :: "string option"
  year :: "string option"
  department :: "string option"
  cia_1_mark :: "jsnum option"
  cia_2_mark :: "jsnum option"
  present_today :: "jsnum option"
  leave_taken :: "jsnum option"
  email :: "string option"
  phone_number :: "string option"
  profile_image_url :: "string option"
  attendance_percentage :: "number option"

text \<open>
  \<open>row[idx]\<close> is \<open>undefined\<close> past the end of the row. The cells of a row are strings.
\<close>

definition getStrOrEmpty :: "(string \<rightharpoonup> nat) \<Rightarrow> string list \<Rightarrow> string \<Rightarrow> string" where
  "getStrOrEmpty headerIndex row key =
     (case headerIndex key of
        None \<Rightarrow> []
      | Some idx \<Rightarrow>
          (let s = trim (if idx < length row then row ! idx else [])
           in if length s > 0 then s else []))"

text \<open>
  The builtin \<open>Number\<close> is a parameter: it gives the value of a trimmed non-empty
  string when that value is finite, and \<open>None\<close> otherwise (NaN and the infinities).
\<close>

definition getNumOrNull ::
  "(string \<Rightarrow> rat option) \<Rightarrow> (string \<rightharpoonup> nat) \<Rightarrow> string list \<Rightarrow> string \<Rightarrow> jsnum" where
  "getNumOrNull Number headerIndex row key =
     (case headerIndex key of
        None \<Rightarrow> Null
      | Some idx \<Rightarrow>
          if \<not> idx < length row then Null
          else (let s = trim (row ! idx)
                in if s = [] then Null
                   else (case Number s of Some n \<Rightarrow> Num n | None \<Rightarrow> Null)))"

text \<open>The row number is only logged and is left out.\<close>

definition mapRowToStudent ::
  "(string \<Rightarrow> rat option) \<Rightarrow> (string \<rightharpoonup> nat) \<Rightarrow> string list \<Rightarrow> student" where
  "mapRowToStudent Number headerIndex row =
     (let cls = getStrOrEmpty headerIndex row ''class'';
          dept = getStrOrEmpty headerIndex row ''department''
      in \<lparr>register_no = Some (getStrOrEmpty headerIndex row ''register_no''),
          name = Some (getStrOrEmpty headerIndex row ''name''),
          father_name = Some (getStrOrEmpty headerIndex row ''father_name''),
          mother_name = Some (getStrOrEmpty headerIndex row ''mother_name''),
          address = Some (getStrOrEmpty headerIndex row ''address''),
          className = Some cls,
          year = Some (getStrOrEmpty headerIndex row ''year''),
          department = Some (if dept = [] \<and> cls \<noteq> [] then cls else dept),
          cia_1_mark = Some (getNumOrNull Number headerIndex row ''cia_1_mark''),
          cia_2_mark = Some (getNumOrNull Number headerIndex row ''cia_2_mark''),
          present_today = Some (getNumOrNull Number headerIndex row ''present_today''),
          leave_taken = Some (getNumOrNull Number headerIndex row ''leave_taken''),
          email = Some (getStrOrEmpty headerIndex row ''email''),
          phone_number = Some (getStrOrEmpty headerIndex row ''phone_number''),
          profile_image_url = Some (getStrOrEmpty headerIndex row ''profile_image_url''),
          attendance_percentage = None\<rparr>)"

text \<open>\<open>!v\<close> on a string property: true for \<open>undefined\<close> and for the empty string.\<close>

definition falsy :: "string option \<Rightarrow> bool" where
  "falsy v \<longleftrightarrow> v = None \<or> v = Some []"

definition validateStudent :: "student \<Rightarrow> string list" where
  "validateStudent row =
     (if falsy (register_no row) then [''register_no missing''] else []) @
     (if falsy (name row) then [''name missing''] else []) @
     (if falsy (department row) then [''department missing''] else [])"

section \<open>Attendance\<close>

text \<open>\<open>v || 0\<close> on a property that is absent, \<open>null\<close> or a finite number.\<close>

definition or_zero :: "jsnum option \<Rightarrow> rat" where
  "or_zero v = (case v of Some (Num n) \<Rightarrow> n | _ \<Rightarrow> 0)"

text \<open>
  The value of a property as an operand of \<open>/\<close>: \<open>undefined\<close> converts to NaN and
  \<open>null\<close> to 0.
\<close>

definition ToNumber :: "jsnum option \<Rightarrow> number" where
  "ToNumber v = (case v of None \<Rightarrow> NaN | Some Null \<Rightarrow> Fin 0 | Some (Num n) \<Rightarrow> Fin n)"

text \<open>\<open>a + b\<close> on finite numbers.\<close>

definition add_double :: "rat \<Rightarrow> rat \<Rightarrow> number" where
  "add_double a b = round_double (a + b)"

text \<open>
  \<open>x / y\<close>. A zero divisor is taken as +0; \<open>deriveAttendance\<close> divides by a total
  that is greater than 0 and by 100 only.
\<close>

fun divide_double :: "number \<Rightarrow> number \<Rightarrow> number" where
  "divide_double (Fin a) (Fin b) =
     (if b = 0 then (if a = 0 then NaN else if 0 < a then PosInf else NegInf)
      else round_double (a / b))"
| "divide_double (Fin a) PosInf = Fin 0"
| "divide_double (Fin a) NegInf = Fin 0"
| "divide_double PosInf (Fin b) = (if 0 \<le> b then PosInf else NegInf)"
| "divide_double NegInf (Fin b) = (if 0 \<le> b then NegInf else PosInf)"
| "divide_double _ _ = NaN"

text \<open>\<open>x * c\<close> for a finite \<open>c\<close>; the code multiplies by 100 only.\<close>

definition times_double :: "number \<Rightarrow> rat \<Rightarrow> number" where
  "times_double x c =
     (case x of
        Fin a \<Rightarrow> round_double (a * c)
      | PosInf \<Rightarrow> (if 0 < c then PosInf else if c < 0 then NegInf else NaN)
      | NegInf \<Rightarrow> (if 0 < c then NegInf else if c < 0 then PosInf else NaN)
      | NaN \<Rightarrow> NaN)"

text \<open>\<open>x > c\<close> for a finite \<open>c\<close>, \<open>Number.isFinite\<close>, and \<open>Math.round\<close>, which
  gives the nearest integer and rounds a tie upwards; that integer is a double.\<close>

definition greater_than :: "number \<Rightarrow> rat \<Rightarrow> bool" where
  "greater_than x c = (case x of Fin a \<Rightarrow> c < a | PosInf \<Rightarrow> True | _ \<Rightarrow> False)"

definition isFinite :: "number \<Rightarrow> bool" where
  "isFinite x = (case x of Fin a \<Rightarrow> True | _ \<Rightarrow> False)"

definition Math_round :: "number \<Rightarrow> number" where
  "Math_round x = (case x of Fin a \<Rightarrow> Fin (of_int \<lfloor>a + 1 / 2\<rfloor>) | _ \<Rightarrow> x)"

text \<open>
  The arguments are the \<open>present_today\<close> and \<open>leave_taken\<close> properties of the object
  passed in. Every operation rounds its result to a double.
\<close>

definition deriveAttendance :: "jsnum option \<Rightarrow> jsnum option \<Rightarrow> number" where
  "deriveAttendance present leave =
     (let total = add_double (or_zero present) (or_zero leave);
          percentage = (if greater_than total 0
                        then times_double (divide_double (ToNumber present) total) 100
                        else Fin 0)
      in if isFinite percentage
         then divide_double (Math_round (times_double percentage 100)) (Fin 100)
         else Fin 0)"

section \<open>The store\<close>

text \<open>
  Modelled from the spec: the destination store is an external service; the spec gives
  it four operations (upsert by key, select all keys, delete by key list, delete all),
  where an upsert inserts an absent key and overwrites the listed fields of a present
  one, and a field left out of the payload keeps its stored value. A request may fail
  with a message, and then changes nothing.
\<close>

datatype request =
    DeleteAll
  | SelectRegisterNo
  | DeleteIn "string list"
  | Upsert "student list"

record db =
  students :: "student list"
  requests :: "request list"

definition listed :: "'a option \<Rightarrow> 'a option \<Rightarrow> 'a option" where
  "listed stored new = (case new of None \<Rightarrow> stored | Some v \<Rightarrow> Some v)"

definition merge_payload :: "student \<Rightarrow> student \<Rightarrow> student" where
  "merge_payload stored p =
     \<lparr>register_no = listed (register_no stored) (register_no p),
      name = listed (name stored) (name p),
      father_name = listed (father_name stored) (father_name p),
      mother_name = listed (mother_name stored) (mother_name p),
      address = listed (address stored) (address p),
      className = listed (className stored) (className p),
      year = listed (year stored) (year p),
      department = listed (department stored) (department p),
      cia_1_mark = listed (cia_1_mark stored) (cia_1_mark p),
      cia_2_mark = listed (cia_2_mark stored) (cia_2_mark p),
      present_today = listed (present_today stored) (present_today p),
      leave_taken = listed (leave_taken stored) (leave_taken p),
      email = listed (email stored) (email p),
      phone_number = listed (phone_number stored) (phone_number p),
      profile_image_url = listed (profile_image_url stored) (profile_image_url p),
      attendance_percentage = listed (attendance_percentage stored) (attendance_percentage p)\<rparr>"

fun upsert_row :: "student \<Rightarrow> student list \<Rightarrow> student list" where
  "upsert_row p [] = [p]"
| "upsert_row p (r # rs) =
     (if register_no r = register_no p then merge_payload r p # rs
      else r # upsert_row p rs)"

definition db_request :: "(request \<Rightarrow> string option) \<Rightarrow> request \<Rightarrow> db \<Rightarrow> string option \<times> db" where
  "db_request faults req d =
     (let d' = d\<lparr>requests := requests d @ [req]\<rparr>
      in case faults req of
           Some msg \<Rightarrow> (Some msg, d')
         | None \<Rightarrow>
             (None,
              case req of
                DeleteAll \<Rightarrow> d'\<lparr>students := []\<rparr>
              | SelectRegisterNo \<Rightarrow> d'
              | DeleteIn ks \<Rightarrow>
                  d'\<lparr>students := filter (\<lambda>r. register_no r \<notin> Some ` set ks) (students d')\<rparr>
              | Upsert batch \<Rightarrow> d'\<lparr>students := fold upsert_row batch (students d')\<rparr>))"

section \<open>Upsert\<close>

text \<open>
  The function mapped over each batch. A property is \<open>!== null\<close> exactly when it is not
  present with the value \<open>null\<close>: an absent property is \<open>undefined\<close>, and
  \<open>undefined !== null\<close> holds.
\<close>

definition hasAcademicData :: "student \<Rightarrow> bool" where
  "hasAcademicData s \<longleftrightarrow>
     cia_1_mark s \<noteq> Some Null \<or> cia_2_mark s \<noteq> Some Null \<or>
     present_today s \<noteq> Some Null \<or> leave_taken s \<noteq> Some Null"

definition delete_if_blank :: "string option \<Rightarrow> string option" where
  "delete_if_blank v = (case v of Some s \<Rightarrow> if trim s = [] then None else Some s | None \<Rightarrow> None)"

definition payload :: "student \<Rightarrow> student" where
  "payload s =
     (let p =
        (if \<not> hasAcademicData s
         then s\<lparr>cia_1_mark := None, cia_2_mark := None, present_today := None,
                leave_taken := None, attendance_percentage := None\<rparr>
         else s\<lparr>attendance_percentage :=
                  Some (deriveAttendance (Some (Num (or_zero (present_today s))))
                                         (Some (Num (or_zero (leave_taken s)))))\<rparr>)
      in p\<lparr>email := delete_if_blank (email p), phone_number := delete_if_blank (phone_number p)\<rparr>)"

function upsert_loop ::
  "(request \<Rightarrow> string option) \<Rightarrow> student list \<Rightarrow> nat \<Rightarrow> nat \<Rightarrow> db \<Rightarrow> (js_error + nat) \<times> db" where
  "upsert_loop faults ss i upserted d =
     (if i < length ss
      then (let batch = map payload (take 500 (drop i ss))
            in case db_request faults (Upsert batch) d of
                 (Some msg, d') \<Rightarrow> (Inl (Error (''Supabase upsert error: '' @ msg)), d')
               | (None, d') \<Rightarrow> upsert_loop faults ss (i + 500) (upserted + length batch) d')
      else (Inr upserted, d))"
  by pat_completeness auto
termination
  by (relation "measure (\<lambda>(faults, ss, i, upserted, d). length ss - i)") auto

declare upsert_loop.simps [simp del]

definition upsertStudents ::
  "(request \<Rightarrow> string option) \<Rightarrow> student list \<Rightarrow> db \<Rightarrow> (js_error + nat) \<times> db" where
  "upsertStudents faults ss d = upsert_loop faults ss 0 0 d"

section \<open>Deletion\<close>

text \<open>\<open>Array.from(new Set(xs))\<close> keeps the first occurrence of each element.\<close>

fun uniq :: "string list \<Rightarrow> string list \<Rightarrow> string list" where
  "uniq seen [] = seen"
| "uniq seen (x # xs) = (if x \<in> set seen then uniq seen xs else uniq (seen @ [x]) xs)"

text \<open>\<open>String(r || '').trim()\<close> on a string that may be absent.\<close>

definition key_string :: "string option \<Rightarrow> string" where
  "key_string v = trim (case v of Some s \<Rightarrow> s | None \<Rightarrow> [])"

definition deleteMissingStudents ::
  "(request \<Rightarrow> string option) \<Rightarrow> string option list \<Rightarrow> db \<Rightarrow> js_error option \<times> db" where
  "deleteMissingStudents faults sheetRegisterNos d =
     (let uniqueNos = uniq [] (filter (\<lambda>r. length r > 0) (map key_string sheetRegisterNos))
      in if length uniqueNos = 0
         then (case db_request faults DeleteAll d of
                 (Some msg, d') \<Rightarrow> (Some (Error (''Delete all students failed: '' @ msg)), d')
               | (None, d') \<Rightarrow> (None, d'))
         else (case db_request faults SelectRegisterNo d of
                 (Some msg, d') \<Rightarrow> (Some (Error (''Fetch existing students failed: '' @ msg)), d')
               | (None, d') \<Rightarrow>
                   (let existingNos =
                          filter (\<lambda>r. length r > 0) (map (\<lambda>r. key_string (register_no r)) (students d'));
                        missingNos = filter (\<lambda>r. r \<notin> set uniqueNos) existingNos
                    in if length missingNos = 0 then (None, d')
                       else (case db_request faults (DeleteIn missingNos) d' of
                               (Some msg, d'') \<Rightarrow>
                                 (Some (Error (''Delete missing students failed: '' @ msg)), d'')
                             | (None, d'') \<Rightarrow> (None, d'')))))"

section \<open>The run\<close>

text \<open>
  The loop of \<open>syncGoogleSheet\<close> over the normalized rows: it trims the string
  properties, collects the warnings, sends a row without key to \<open>failedRows\<close> and
  strips or completes the academic group of the others.
\<close>

definition trim_strings :: "student \<Rightarrow> student" where
  "trim_strings r =
     r\<lparr>register_no := map_option trim (register_no r), name := map_option trim (name r),
       father_name := map_option trim (father_name r),
       mother_name := map_option trim (mother_name r),
       address := map_option trim (address r), className := map_option trim (className r),
       year := map_option trim (year r), department := map_option trim (department r),
       email := map_option trim (email r), phone_number := map_option trim (phone_number r),
       profile_image_url := map_option trim (profile_image_url r)\<rparr>"

definition academic_step :: "student \<Rightarrow> student" where
  "academic_step row =
     (if \<not> (cia_1_mark row \<noteq> Some Null \<or> cia_2_mark row \<noteq> Some Null \<or>
             present_today row \<noteq> Some Null \<or> leave_taken row \<noteq> Some Null)
      then row\<lparr>cia_1_mark := None, cia_2_mark := None, present_today := None,
               leave_taken := None, attendance_percentage := None\<rparr>
      else row\<lparr>attendance_percentage :=
                 Some (deriveAttendance (present_today row) (leave_taken row))\<rparr>)"

record loop_state =
  failedRows :: "(nat \<times> string) list"
  validRows :: "student list"
  warnings :: "(nat \<times> string list) list"

fun row_loop :: "student list \<Rightarrow> nat \<Rightarrow> loop_state \<Rightarrow> loop_state" where
  "row_loop [] idx st = st"
| "row_loop (r # rs) idx st =
     (let row = trim_strings r;
          ws = validateStudent row;
          st1 = (if length ws > 0 then st\<lparr>warnings := warnings st @ [(idx + 2, ws)]\<rparr> else st)
      in if falsy (register_no row)
         then row_loop rs (idx + 1)
                (st1\<lparr>failedRows := failedRows st1 @ [(idx + 2, ''register_no missing'')]\<rparr>)
         else row_loop rs (idx + 1) (st1\<lparr>validRows := validRows st1 @ [academic_step row]\<rparr>))"

record summary =
  total_rows :: nat
  processed_rows :: nat
  failed_rows :: nat

text \<open>
  \<open>syncGoogleSheet\<close> from the normalized rows on: the loop, the deletion, the upsert
  and the summary (without the duration). An error of the store aborts the run.
\<close>

definition sync_normalized ::
  "(request \<Rightarrow> string option) \<Rightarrow> student list \<Rightarrow> db \<Rightarrow> (js_error + summary) \<times> db" where
  "sync_normalized faults normalized d =
     (let st = row_loop normalized 0 \<lparr>failedRows = [], validRows = [], warnings = []\<rparr>;
          sheetRegisterNos = map register_no (validRows st)
      in case deleteMissingStudents faults sheetRegisterNos d of
           (Some e, d') \<Rightarrow> (Inl e, d')
         | (None, d') \<Rightarrow>
             (case upsertStudents faults (validRows st) d' of
                (Inl e, d'') \<Rightarrow> (Inl e, d'')
              | (Inr n, d'') \<Rightarrow>
                  (Inr \<lparr>total_rows = length normalized, processed_rows = n,
                        failed_rows = length (failedRows st)\<rparr>, d'')))"

definition syncGoogleSheet ::
  "(string \<Rightarrow> rat option) \<Rightarrow> (request \<Rightarrow> string option) \<Rightarrow> string list \<Rightarrow> string list list \<Rightarrow> db
     \<Rightarrow> (js_error + summary) \<times> db" where
  "syncGoogleSheet Number faults hs rs d =
     (let headerIndex = buildHeaderIndex hs
      in sync_normalized faults (map (mapRowToStudent Number headerIndex) rs) d)"

section \<open>Fetching with retries\<close>

text \<open>
  The network is a function from the number of earlier calls of \<open>fetch\<close> to the outcome
  of the next one: a response with its \<open>ok\<close> flag, status and status text, or a
  rejection. \<open>HttpError status text\<close> stands for the error with the message
  \<open>HTTP status text\<close>. The state holds \<open>attempt\<close>, the number of calls made and the
  delays passed to \<open>setTimeout\<close>, in order.
\<close>

datatype fetch_error = HttpError nat string | NetworkError string

datatype fetch_outcome = Response bool nat string | Rejected string

datatype fetch_result = Returned fetch_outcome | Thrown fetch_error | Returned_undefined

record retry_state =
  attempt :: nat
  calls :: nat
  sleeps :: "nat list"

definition try_fetch :: "fetch_outcome \<Rightarrow> fetch_error + fetch_outcome" where
  "try_fetch out =
     (case out of
        Response ok status text \<Rightarrow>
          if \<not> ok then Inl (HttpError status text) else Inr (Response ok status text)
      | Rejected msg \<Rightarrow> Inl (NetworkError msg))"

function fetch_loop ::
  "(nat \<Rightarrow> fetch_outcome) \<Rightarrow> nat \<Rightarrow> nat \<Rightarrow> retry_state \<Rightarrow> fetch_result \<times> retry_state" where
  "fetch_loop net maxRetries backoffMs st =
     (if attempt st < maxRetries
      then (case try_fetch (net (calls st)) of
              Inr res \<Rightarrow> (Returned res, st\<lparr>calls := calls st + 1\<rparr>)
            | Inl err \<Rightarrow>
                (let st' = st\<lparr>calls := calls st + 1, attempt := attempt st + 1\<rparr>
                 in if attempt st' \<ge> maxRetries then (Thrown err, st')
                    else fetch_loop net maxRetries backoffMs
                           (st'\<lparr>sleeps := sleeps st' @ [backoffMs * attempt st']\<rparr>)))
      else (Returned_undefined, st))"
  by pat_completeness auto
termination
  by (relation "measure (\<lambda>(net, maxRetries, backoffMs, st). maxRetries - attempt st)") auto

declare fetch_loop.simps [simp del]

text \<open>Both callers leave \<open>maxRetries\<close> and \<open>backoffMs\<close> at their defaults, 3 and 500.\<close>

definition fetchWithRetry :: "(nat \<Rightarrow> fetch_outcome) \<Rightarrow> nat \<Rightarrow> nat \<Rightarrow> fetch_result \<times> retry_state" where
  "fetchWithRetry net maxRetries backoffMs =
     fetch_loop net maxRetries backoffMs \<lparr>attempt = 0, calls = 0, sleeps = []\<rparr>"

section \<open>Notation for the statements\<close>

text \<open>A stored row that holds its key only.\<close>

abbreviation (input) key_only :: "string \<Rightarrow> student" where
  "key_only k \<equiv>
     \<lparr>register_no = Some k, name = None, father_name = None, mother_name = None,
      address = None, className = None, year = None, department = None,
      cia_1_mark = None, cia_2_mark = None, present_today = None, leave_taken = None,
      email = None, phone_number = None, profile_image_url = None,
      attendance_percentage = None\<rparr>"

text \<open>The normalized row of a line whose cells are all blank.\<close>

abbreviation (input) blank_row :: student where
  "blank_row \<equiv>
     \<lparr>register_no = Some [], name = Some [], father_name = Some [], mother_name = Some [],
      address = Some [], className = Some [], year = Some [], department = Some [],
      cia_1_mark = Some Null, cia_2_mark = Some Null, present_today = Some Null,
      leave_taken = Some Null, email = Some [], phone_number = Some [],
      profile_image_url = Some [], attendance_percentage = None\<rparr>"

text \<open>The rows of the upsert requests in a request log, in order.\<close>

abbreviation (input) upserted_rows :: "request list \<Rightarrow> student list" where
  "upserted_rows qs \<equiv> concat (map (\<lambda>q. case q of Upsert b \<Rightarrow> b | _ \<Rightarrow> []) qs)"

text \<open>
  A rational that is a double, and the last line of \<open>deriveAttendance\<close> on its own:
  \<open>Number.isFinite(percentage) ? Math.round(percentage * 100) / 100 : 0\<close>.
\<close>

definition is_double :: "rat \<Rightarrow> bool" where
  "is_double x \<longleftrightarrow> round_double x = Fin x"

definition two_decimals :: "number \<Rightarrow> number" where
  "two_decimals percentage =
     (if isFinite percentage
      then divide_double (Math_round (times_double percentage 100)) (Fin 100)
      else Fin 0)"

text \<open>
  A line of a CSV text, for the statements about the parser: its fields are separated by
  commas, and a field is written either as it is (it holds no quote and no comma then) or
  between quotes with every quote of its value doubled.
\<close>

datatype csv_field = Unquoted string | Quoted string

definition escape_quotes :: "string \<Rightarrow> string" where
  "escape_quotes s = concat (map (\<lambda>c. if c = CHR 0x22 then [CHR 0x22, CHR 0x22] else [c]) s)"

fun field_text :: "csv_field \<Rightarrow> string" where
  "field_text (Unquoted u) = u"
| "field_text (Quoted s) = CHR 0x22 # escape_quotes s @ [CHR 0x22]"

fun field_value :: "csv_field \<Rightarrow> string" where
  "field_value (Unquoted u) = u"
| "field_value (Quoted s) = s"

fun well_formed :: "csv_field \<Rightarrow> bool" where
  "well_formed (Unquoted u) \<longleftrightarrow> CHR 0x22 \<notin> set u \<and> CHR '','' \<notin> set u"
| "well_formed (Quoted s) \<longleftrightarrow> True"

fun line_text :: "csv_field list \<Rightarrow> string" where
  "line_text [] = []"
| "line_text [f] = field_text f"
| "line_text (f # g # fs) = field_text f @ CHR '','' # line_text (g # fs)"

text \<open>The quoted fields whose value consists of quotes only, the empty value included.\<close>

fun only_quotes :: "csv_field \<Rightarrow> bool" where
  "only_quotes (Unquoted u) \<longleftrightarrow> False"
| "only_quotes (Quoted s) \<longleftrightarrow> set s \<subseteq> {CHR 0x22}"

section \<open>Properties of the CSV parser\<close>

subsection \<open>Lines\<close>

lemma split_lf_clean:
  "CHR 0x0A \<notin> set l \<Longrightarrow> split_lf cur (l @ x) = split_lf (cur @ l) x"
  by (induction l arbitrary: cur) auto

lemma replace_cr_clean:
  "CHR 0x0D \<notin> set l \<Longrightarrow> replace_cr l = l"
  by (induction l) (auto simp: replace_cr_def)

lemma replace_cr_append: "replace_cr (a @ b) = replace_cr a @ replace_cr b"
  by (simp add: replace_cr_def)

text \<open>
  Replacing CR LF first only merges two line breaks into one, which removes an empty
  line; the filter removes it anyway.
\<close>

lemma split_lf_replace_crlf:
  "filter (\<lambda>l. length l > 0) (split_lf cur (replace_cr (replace_crlf x)))
     = filter (\<lambda>l. length l > 0) (split_lf cur (replace_cr x))"
proof (induction x arbitrary: cur rule: replace_crlf.induct)
  case 1
  then show ?case by simp
next
  case (2 c)
  then show ?case by simp
next
  case (3 c d cs)
  show ?case
  proof (cases "c = CHR 0x0D \<and> d = CHR 0x0A")
    case True
    then show ?thesis using "3.IH"(1) [of "[]"] by (simp add: replace_cr_def)
  next
    case False
    then show ?thesis using "3.IH"(2) [of "[]"] "3.IH"(2) [of "cur @ [c]"]
      by (auto simp add: replace_cr_def)
  qed
qed

lemma split_lf_lines:
  assumes "\<forall>(l, t)\<in>set lts. CHR 0x0D \<notin> set l \<and> CHR 0x0A \<notin> set l
             \<and> t \<in> {[CHR 0x0D, CHR 0x0A], [CHR 0x0D], [CHR 0x0A]}"
    and "CHR 0x0D \<notin> set z" and "CHR 0x0A \<notin> set z"
  shows "filter (\<lambda>l. length l > 0)
           (split_lf [] (replace_cr (concat (map (\<lambda>(l, t). l @ t) lts) @ z)))
         = filter (\<lambda>l. length l > 0) (map fst lts @ [z])"
  using assms(1)
proof (induction lts)
  case Nil
  show ?case
    using assms(2,3) split_lf_clean [of z "[]" "[]"] by (simp add: replace_cr_clean)
next
  case (Cons p lts)
  obtain l t where p: "p = (l, t)" by (cases p)
  let ?X = "replace_cr (concat (map (\<lambda>(l, t). l @ t) lts) @ z)"
  have l: "CHR 0x0D \<notin> set l" "CHR 0x0A \<notin> set l"
    and t: "t \<in> {[CHR 0x0D, CHR 0x0A], [CHR 0x0D], [CHR 0x0A]}"
    using Cons.prems p by auto
  have IH: "filter (\<lambda>l. length l > 0) (split_lf [] ?X)
              = filter (\<lambda>l. length l > 0) (map fst lts @ [z])"
    using Cons.IH Cons.prems by simp
  have "replace_cr (concat (map (\<lambda>(l, t). l @ t) (p # lts)) @ z) = l @ replace_cr t @ ?X"
    using p l by (simp add: replace_cr_append replace_cr_clean)
  then have "split_lf [] (replace_cr (concat (map (\<lambda>(l, t). l @ t) (p # lts)) @ z))
      = split_lf l (replace_cr t @ ?X)"
    using split_lf_clean [OF l(2), of "[]"] by simp
  moreover have "filter (\<lambda>l. length l > 0) (split_lf l (replace_cr t @ ?X))
      = filter (\<lambda>l. length l > 0) (l # split_lf [] ?X)"
    using t by (auto simp: replace_cr_def)
  ultimately show ?case using IH p by simp
qed

lemma csv_lines_terminators:
  assumes "\<forall>(l, t)\<in>set lts. CHR 0x0D \<notin> set l \<and> CHR 0x0A \<notin> set l
             \<and> t \<in> {[CHR 0x0D, CHR 0x0A], [CHR 0x0D], [CHR 0x0A]}"
    and "CHR 0x0D \<notin> set z" and "CHR 0x0A \<notin> set z"
  shows "csv_lines (concat (map (\<lambda>(l, t). l @ t) lts) @ z)
           = filter (\<lambda>l. l \<noteq> []) (map fst lts @ [z])"
  unfolding csv_lines_def split_lf_replace_crlf
  using split_lf_lines [OF assms] by simp

subsection \<open>Quoted fields\<close>

lemma parse_chars_plain_in_quotes:
  "c \<noteq> CHR 0x22 \<Longrightarrow>
   parse_chars (c # cs) result current True = parse_chars cs result (current @ [c]) True"
  by (cases cs) auto

lemma parse_chars_escaped:
  "parse_chars
     (concat (map (\<lambda>c. if c = CHR 0x22 then [CHR 0x22, CHR 0x22] else [c]) s) @ rest)
     result current True
   = parse_chars rest result (current @ s) True"
proof (induction s arbitrary: current)
  case Nil
  then show ?case by simp
next
  case (Cons c s)
  show ?case
  proof (cases "c = CHR 0x22")
    case True
    then show ?thesis using Cons.IH [of "current @ [CHR 0x22]"] by simp
  next
    case False
    then show ?thesis using Cons.IH [of "current @ [c]"]
      by (simp add: parse_chars_plain_in_quotes)
  qed
qed

lemma parse_chars_close_quote:
  "rest = [] \<or> hd rest = CHR '','' \<Longrightarrow>
   parse_chars (CHR 0x22 # rest) result current True = parse_chars rest result current False"
  by (cases rest) auto

lemma parse_chars_comma:
  "parse_chars (CHR '','' # cs) result current False
     = parse_chars cs (result @ [current]) [] False"
  by (cases cs) auto

text \<open>
  The opening quote of a field that starts with escaped quotes is read as the first half
  of a doubled quote; the parity of the run still leaves the parser inside the field.
\<close>

lemma parse_chars_quoted_field:
  "\<exists>c\<in>set s. c \<noteq> CHR 0x22 \<Longrightarrow> rest = [] \<or> hd rest = CHR '','' \<Longrightarrow>
   parse_chars
     (CHR 0x22 # concat (map (\<lambda>c. if c = CHR 0x22 then [CHR 0x22, CHR 0x22] else [c]) s)
        @ CHR 0x22 # rest)
     result current False
   = parse_chars rest result (current @ s) False"
proof (induction s arbitrary: current)
  case Nil
  then show ?case by simp
next
  case (Cons c s)
  let ?esc = "\<lambda>s. concat (map (\<lambda>c. if c = CHR 0x22 then [CHR 0x22, CHR 0x22] else [c]) s)"
  show ?case
  proof (cases "c = CHR 0x22")
    case True
    with Cons.prems have "\<exists>c\<in>set s. c \<noteq> CHR 0x22" by auto
    from Cons.IH [OF this Cons.prems(2), of "current @ [CHR 0x22]"] True
    show ?thesis by simp
  next
    case False
    have "parse_chars (CHR 0x22 # ?esc (c # s) @ CHR 0x22 # rest) result current False
          = parse_chars (?esc (c # s) @ CHR 0x22 # rest) result current True"
      using False by simp
    also have "\<dots> = parse_chars (CHR 0x22 # rest) result (current @ c # s) True"
      by (rule parse_chars_escaped)
    also have "\<dots> = parse_chars rest result (current @ c # s) False"
      using Cons.prems(2) by (rule parse_chars_close_quote)
    finally show ?thesis .
  qed
qed

lemma parse_chars_quoted_fields:
  assumes "\<forall>f\<in>set (f0 # fs). \<exists>c\<in>set f. c \<noteq> CHR 0x22"
  shows "parse_chars
      (CHR 0x22 # concat (map (\<lambda>c. if c = CHR 0x22 then [CHR 0x22, CHR 0x22] else [c]) f0)
        @ CHR 0x22 #
        concat (map (\<lambda>f. CHR '','' # CHR 0x22 #
            concat (map (\<lambda>c. if c = CHR 0x22 then [CHR 0x22, CHR 0x22] else [c]) f)
              @ [CHR 0x22]) fs))
      result current False
    = result @ (current @ f0) # fs"
  using assms
proof (induction fs arbitrary: f0 result current)
  case Nil
  then show ?case using parse_chars_quoted_field [of f0 "[]" result current] by simp
next
  case (Cons f fs)
  let ?esc = "\<lambda>s. concat (map (\<lambda>c. if c = CHR 0x22 then [CHR 0x22, CHR 0x22] else [c]) s)"
  let ?tail = "\<lambda>fs. concat (map (\<lambda>f. CHR '','' # CHR 0x22 # ?esc f @ [CHR 0x22]) fs)"
  have "parse_chars (CHR 0x22 # ?esc f0 @ CHR 0x22 # ?tail (f # fs)) result current False
          = parse_chars (?tail (f # fs)) result (current @ f0) False"
    using Cons.prems by (intro parse_chars_quoted_field) auto
  also have "\<dots> = parse_chars (CHR 0x22 # ?esc f @ CHR 0x22 # ?tail fs)
                      (result @ [current @ f0]) [] False"
    by (simp add: parse_chars_comma del: parse_chars.simps)
  also have "\<dots> = (result @ [current @ f0]) @ ([] @ f) # fs"
    using Cons.prems by (intro Cons.IH) auto
  finally show ?case by simp
qed

subsection \<open>Fields\<close>

lemma parse_chars_plain:
  "c \<noteq> CHR 0x22 \<Longrightarrow> c \<noteq> CHR '','' \<Longrightarrow>
   parse_chars (c # cs) result current False = parse_chars cs result (current @ [c]) False"
  by (cases cs) auto

lemma parse_chars_unquoted_field:
  "CHR 0x22 \<notin> set u \<Longrightarrow> CHR '','' \<notin> set u \<Longrightarrow>
   parse_chars (u @ rest) result current False = parse_chars rest result (current @ u) False"
proof (induction u arbitrary: current)
  case Nil
  then show ?case by simp
next
  case (Cons c u)
  then have c: "c \<noteq> CHR 0x22" "c \<noteq> CHR '',''"
    and u: "CHR 0x22 \<notin> set u" "CHR '','' \<notin> set u" by auto
  have "parse_chars ((c # u) @ rest) result current False
      = parse_chars (u @ rest) result (current @ [c]) False"
    using parse_chars_plain [OF c] by simp
  also have "\<dots> = parse_chars rest result ((current @ [c]) @ u) False"
    using u by (rule Cons.IH)
  finally show ?case by simp
qed

text \<open>
  A quoted field whose value consists of \<open>k\<close> quotes is a run of \<open>2 * k + 2\<close> quotes,
  which the parser reads as \<open>k + 1\<close> doubled quotes without ever entering the field.
\<close>

lemma parse_chars_quote_pairs:
  "parse_chars (replicate (2 * n) (CHR 0x22) @ rest) result current inQuotes
     = parse_chars rest result (current @ replicate n (CHR 0x22)) inQuotes"
proof (induction n arbitrary: current)
  case 0
  then show ?case by simp
next
  case (Suc n)
  then show ?case using Suc.IH [of "current @ [CHR 0x22]"]
    by (simp add: replicate_app_Cons_same)
qed

lemma escape_quotes_only_quotes:
  "set s \<subseteq> {CHR 0x22} \<Longrightarrow>
   s = replicate (length s) (CHR 0x22) \<and> escape_quotes s = replicate (2 * length s) (CHR 0x22)"
  by (induction s) (auto simp: escape_quotes_def)

lemma parse_chars_field_of_quotes:
  assumes "set s \<subseteq> {CHR 0x22}"
  shows "parse_chars (field_text (Quoted s) @ rest) result current False
           = parse_chars rest result (current @ CHR 0x22 # s) False"
proof -
  have "field_text (Quoted s) = replicate (2 * Suc (length s)) (CHR 0x22)"
    using escape_quotes_only_quotes [OF assms]
    by (simp add: replicate_append_same)
  then have "parse_chars (field_text (Quoted s) @ rest) result current False
      = parse_chars rest result (current @ replicate (Suc (length s)) (CHR 0x22)) False"
    by (simp only: parse_chars_quote_pairs)
  also have "replicate (Suc (length s)) (CHR 0x22) = CHR 0x22 # s"
    using escape_quotes_only_quotes [OF assms] by simp
  finally show ?thesis .
qed

lemma parse_chars_field:
  assumes "well_formed f" and "rest = [] \<or> hd rest = CHR '',''"
  shows "parse_chars (field_text f @ rest) result current False
           = parse_chars rest result
               (current @ (if only_quotes f then CHR 0x22 # field_value f else field_value f)) False"
proof (cases f)
  case (Unquoted u)
  then show ?thesis using assms(1) by (simp add: parse_chars_unquoted_field)
next
  case (Quoted s)
  show ?thesis
  proof (cases "set s \<subseteq> {CHR 0x22}")
    case True
    then show ?thesis using parse_chars_field_of_quotes [OF True] Quoted by simp
  next
    case False
    then have "\<exists>c\<in>set s. c \<noteq> CHR 0x22" by auto
    from parse_chars_quoted_field [OF this assms(2)] False Quoted
    show ?thesis by (simp add: escape_quotes_def)
  qed
qed

lemma parse_chars_line:
  assumes "\<forall>f\<in>set (f # fs). well_formed f"
  shows "parse_chars (line_text (f # fs)) result current False
    = result @ (current @ (if only_quotes f then CHR 0x22 # field_value f else field_value f))
        # map (\<lambda>f. if only_quotes f then CHR 0x22 # field_value f else field_value f) fs"
  using assms
proof (induction fs arbitrary: f result current)
  case Nil
  then show ?case using parse_chars_field [of f "[]" result current] by simp
next
  case (Cons g fs)
  have "parse_chars (line_text (f # g # fs)) result current False
      = parse_chars (field_text f @ CHR '','' # line_text (g # fs)) result current False"
    by simp
  also have "\<dots> = parse_chars (CHR '','' # line_text (g # fs)) result
        (current @ (if only_quotes f then CHR 0x22 # field_value f else field_value f)) False"
    using Cons.prems by (intro parse_chars_field) simp_all
  also have "\<dots> = parse_chars (line_text (g # fs))
        (result @ [current @ (if only_quotes f then CHR 0x22 # field_value f else field_value f)])
        [] False"
    by (rule parse_chars_comma)
  also have "\<dots> = (result @ [current @ (if only_quotes f then CHR 0x22 # field_value f else field_value f)])
        @ ([] @ (if only_quotes g then CHR 0x22 # field_value g else field_value g))
        # map (\<lambda>f. if only_quotes f then CHR 0x22 # field_value f else field_value f) fs"
    using Cons.prems by (intro Cons.IH) simp_all
  finally show ?case by simp
qed

lemma parse_line_fields:
  assumes "\<forall>f\<in>set fs. well_formed f" and "fs \<noteq> []"
  shows "parse_line (line_text fs)
    = map (\<lambda>f. if only_quotes f then CHR 0x22 # field_value f else field_value f) fs"
proof -
  from assms(2) obtain f gs where "fs = f # gs" by (cases fs) auto
  then show ?thesis using parse_chars_line [of f gs "[]" "[]"] assms(1)
    by (simp add: parse_line_def)
qed

lemma parseCSV_lines:
  assumes "\<forall>(fs, t)\<in>set flts. fs \<noteq> [] \<and> (\<forall>f\<in>set fs. well_formed f)
             \<and> CHR 0x0D \<notin> set (line_text fs) \<and> CHR 0x0A \<notin> set (line_text fs)
             \<and> t \<in> {[CHR 0x0D, CHR 0x0A], [CHR 0x0D], [CHR 0x0A]}"
  shows "parseCSV (concat (map (\<lambda>(fs, t). line_text fs @ t) flts))
    = (case map (map (\<lambda>f. if only_quotes f then CHR 0x22 # field_value f else field_value f))
              (filter (\<lambda>fs. line_text fs \<noteq> []) (map fst flts)) of
         [] \<Rightarrow> Inl TypeError
       | h # rs \<Rightarrow> Inr \<lparr>headers = map trim h, rows = rs\<rparr>)"
proof -
  define lts where "lts = map (\<lambda>(fs, t). (line_text fs, t)) flts"
  have a: "\<forall>(l, t)\<in>set lts. CHR 0x0D \<notin> set l \<and> CHR 0x0A \<notin> set l
             \<and> t \<in> {[CHR 0x0D, CHR 0x0A], [CHR 0x0D], [CHR 0x0A]}"
    using assms unfolding lts_def by fastforce
  have b: "concat (map (\<lambda>(fs, t). line_text fs @ t) flts) = concat (map (\<lambda>(l, t). l @ t) lts) @ []"
    unfolding lts_def by (simp add: comp_def case_prod_unfold)
  have "csv_lines (concat (map (\<lambda>(fs, t). line_text fs @ t) flts))
      = filter (\<lambda>l. l \<noteq> []) (map fst lts @ [[]])"
    unfolding b using a by (intro csv_lines_terminators) simp_all
  also have "\<dots> = map line_text (filter (\<lambda>fs. line_text fs \<noteq> []) (map fst flts))"
    unfolding lts_def by (simp add: filter_map comp_def case_prod_unfold)
  finally have c: "csv_lines (concat (map (\<lambda>(fs, t). line_text fs @ t) flts))
      = map line_text (filter (\<lambda>fs. line_text fs \<noteq> []) (map fst flts))" .
  have d: "map parse_line (map line_text (filter (\<lambda>fs. line_text fs \<noteq> []) (map fst flts)))
      = map (map (\<lambda>f. if only_quotes f then CHR 0x22 # field_value f else field_value f))
          (filter (\<lambda>fs. line_text fs \<noteq> []) (map fst flts))"
    using assms by (auto simp: parse_line_fields)
  show ?thesis unfolding parseCSV_def c d ..
qed

text \<open>
  C6. The spec: the parser handles quote-wrapped fields, delimiters inside quoted fields,
  doubled-quote escaping and the CR/LF line-ending variants, drops blank lines and takes
  the first parsed row as the header row. The code, on a line of well-formed fields:
  the line \<open>"Doe, ""Jr"""\<close> parses to the single cell \<open>Doe, "Jr"\<close>;
  an unquoted field parses to itself, and a quoted field parses to its value, commas and
  quotes included, when the value holds a character other than a quote;
  a quoted field whose value consists of quotes only, the empty value included, parses
  to its value with one more quote, so that a line parses to the values of its fields
  exactly when it has no such field: the cell of \<open>""\<close> is one quote and the cell of
  \<open>""""\<close> is two;
  a text of lines ended by CR LF, CR or LF (the last line possibly unterminated) splits
  into its non-empty lines;
  and the first non-empty line of such a text gives the trimmed headers, the others the
  data rows.
\<close>

theorem C6_parseCSV_field_of_quotes_gains_a_quote:
  \<open>parse_line ''"Doe, ""Jr"""'' = [''Doe, "Jr"'']
   \<and> ((\<forall>f\<in>set fs. well_formed f) \<and> fs \<noteq> [] \<longrightarrow>
        parse_line (line_text fs)
          = map (\<lambda>f. if only_quotes f then CHR 0x22 # field_value f else field_value f) fs)
   \<and> ((\<forall>f\<in>set fs. well_formed f) \<and> fs \<noteq> [] \<longrightarrow>
        (parse_line (line_text fs) = map field_value fs \<longleftrightarrow> (\<forall>f\<in>set fs. \<not> only_quotes f)))
   \<and> line_text [Unquoted ''x'', Quoted []] = ''x,""''
   \<and> parse_line ''x,""'' = [''x'', ''"'']
   \<and> line_text [Unquoted ''x'', Quoted ''"''] = ''x,""""''
   \<and> parse_line ''x,""""'' = [''x'', ''""'']
   \<and> ((\<forall>(l, t)\<in>set lts. CHR 0x0D \<notin> set l \<and> CHR 0x0A \<notin> set l
             \<and> t \<in> {[CHR 0x0D, CHR 0x0A], [CHR 0x0D], [CHR 0x0A]})
        \<and> CHR 0x0D \<notin> set z \<and> CHR 0x0A \<notin> set z \<longrightarrow>
        csv_lines (concat (map (\<lambda>(l, t). l @ t) lts) @ z)
          = filter (\<lambda>l. l \<noteq> []) (map fst lts @ [z]))
   \<and> ((\<forall>(fs, t)\<in>set flts. fs \<noteq> [] \<and> (\<forall>f\<in>set fs. well_formed f)
             \<and> CHR 0x0D \<notin> set (line_text fs) \<and> CHR 0x0A \<notin> set (line_text fs)
             \<and> t \<in> {[CHR 0x0D, CHR 0x0A], [CHR 0x0D], [CHR 0x0A]}) \<longrightarrow>
        parseCSV (concat (map (\<lambda>(fs, t). line_text fs @ t) flts))
          = (case map (map (\<lambda>f. if only_quotes f then CHR 0x22 # field_value f else field_value f))
                    (filter (\<lambda>fs. line_text fs \<noteq> []) (map fst flts)) of
               [] \<Rightarrow> Inl TypeError
             | h # rs \<Rightarrow> Inr \<lparr>headers = map trim h, rows = rs\<rparr>))\<close>
proof (intro conjI impI)
  show \<open>parse_line ''"Doe, ""Jr"""'' = [''Doe, "Jr"'']\<close>
    by (simp add: parse_line_def)
next
  assume "(\<forall>f\<in>set fs. well_formed f) \<and> fs \<noteq> []"
  then show "parse_line (line_text fs)
          = map (\<lambda>f. if only_quotes f then CHR 0x22 # field_value f else field_value f) fs"
    by (intro parse_line_fields) simp_all
next
  assume "(\<forall>f\<in>set fs. well_formed f) \<and> fs \<noteq> []"
  then have "parse_line (line_text fs)
          = map (\<lambda>f. if only_quotes f then CHR 0x22 # field_value f else field_value f) fs"
    by (intro parse_line_fields) simp_all
  then show "parse_line (line_text fs) = map field_value fs \<longleftrightarrow> (\<forall>f\<in>set fs. \<not> only_quotes f)"
    by (simp add: map_eq_conv)
next
  show \<open>line_text [Unquoted ''x'', Quoted []] = ''x,""''\<close>
    by (simp add: escape_quotes_def)
  show \<open>parse_line ''x,""'' = [''x'', ''"'']\<close>
    by (simp add: parse_line_def)
  show \<open>line_text [Unquoted ''x'', Quoted ''"''] = ''x,""""''\<close>
    by (simp add: escape_quotes_def)
  show \<open>parse_line ''x,""""'' = [''x'', ''""'']\<close>
    by (simp add: parse_line_def)
next
  assume "(\<forall>(l, t)\<in>set lts. CHR 0x0D \<notin> set l \<and> CHR 0x0A \<notin> set l
             \<and> t \<in> {[CHR 0x0D, CHR 0x0A], [CHR 0x0D], [CHR 0x0A]})
        \<and> CHR 0x0D \<notin> set z \<and> CHR 0x0A \<notin> set z"
  then show "csv_lines (concat (map (\<lambda>(l, t). l @ t) lts) @ z)
          = filter (\<lambda>l. l \<noteq> []) (map fst lts @ [z])"
    using csv_lines_terminators [of lts z] by blast
next
  assume "\<forall>(fs, t)\<in>set flts. fs \<noteq> [] \<and> (\<forall>f\<in>set fs. well_formed f)
             \<and> CHR 0x0D \<notin> set (line_text fs) \<and> CHR 0x0A \<notin> set (line_text fs)
             \<and> t \<in> {[CHR 0x0D, CHR 0x0A], [CHR 0x0D], [CHR 0x0A]}"
  then show "parseCSV (concat (map (\<lambda>(fs, t). line_text fs @ t) flts))
          = (case map (map (\<lambda>f. if only_quotes f then CHR 0x22 # field_value f else field_value f))
                    (filter (\<lambda>fs. line_text fs \<noteq> []) (map fst flts)) of
               [] \<Rightarrow> Inl TypeError
             | h # rs \<Rightarrow> Inr \<lparr>headers = map trim h, rows = rs\<rparr>)"
    by (rule parseCSV_lines)
qed

text \<open>
  The theorem at the line \<open>"a,b",x,"c""d",""\<close>, whose last field is an empty quoted
  field, and at the text of the lines \<open>h\<close>, an empty line and \<open>"x,y",z\<close>, ended by
  CR LF, CR and LF.
\<close>

theorem C6_parseCSV_witness:
  \<open>parse_line ''"a,b",x,"c""d",""'' = [''a,b'', ''x'', ''c"d'', ''"'']
   \<and> parse_line ''"a,b",x,"c""d",""'' \<noteq> [''a,b'', ''x'', ''c"d'', []]
   \<and> csv_lines [CHR ''h'', CHR 0x0D, CHR 0x0A, CHR 0x0D, CHR ''x'', CHR 0x0A] = [''h'', ''x'']
   \<and> parseCSV (''h'' @ [CHR 0x0D, CHR 0x0A, CHR 0x0D] @ ''"x,y",z'' @ [CHR 0x0A])
       = Inr \<lparr>headers = [''h''], rows = [[''x,y'', ''z'']]\<rparr>\<close>
  using C6_parseCSV_field_of_quotes_gains_a_quote
    [where fs = "[Quoted ''a,b'', Unquoted ''x'', Quoted [CHR ''c'', CHR 0x22, CHR ''d''], Quoted []]"
       and lts = "[(''h'', [CHR 0x0D, CHR 0x0A]), ([], [CHR 0x0D]), (''x'', [CHR 0x0A])]"
       and z = "[]"
       and flts = "[([Unquoted ''h''], [CHR 0x0D, CHR 0x0A]), ([Unquoted []], [CHR 0x0D]),
                    ([Quoted ''x,y'', Unquoted ''z''], [CHR 0x0A])]"]
  by (simp add: escape_quotes_def trim_def is_ws_def)

text \<open>
  C10. Two consecutive quote characters always collapse to one literal quote appended to
  the current cell, whether or not the parser is inside a quoted field; so the line
  \<open>a,"",b\<close>, whose middle field is an empty quoted field, parses to a middle cell that
  holds one quote character, not the empty string.
\<close>

theorem C10_doubled_quote_collapses:
  \<open>parse_chars (CHR 0x22 # CHR 0x22 # cs) result current inQuotes
     = parse_chars cs result (current @ [CHR 0x22]) inQuotes
   \<and> parse_line ''a,"",b'' = [''a'', ''"'', ''b'']
   \<and> parse_line ''a,"",b'' \<noteq> [''a'', [], ''b'']\<close>
  by (simp add: parse_line_def)

section \<open>Properties of the retry policy\<close>

text \<open>
  The loop invariant: \<open>attempt\<close> counts the calls made so far, all of which failed, and
  the delays so far are \<open>backoffMs\<close> times 1, 2, ... in order.
\<close>

lemma fetch_loop_invariant:
  assumes "fetch_loop net m b st = (r, st')"
    and "attempt st = calls st"
    and "sleeps st = map (\<lambda>a. b * a) [1..<Suc (calls st)]"
    and "attempt st < m"
  shows "calls st < calls st' \<and> calls st' \<le> m
       \<and> sleeps st' = map (\<lambda>a. b * a) [1..<calls st']
       \<and> (\<forall>k. calls st \<le> k \<and> k < calls st' - 1 \<longrightarrow> isl (try_fetch (net k)))
       \<and> (case r of
             Returned res \<Rightarrow> try_fetch (net (calls st' - 1)) = Inr res
           | Thrown e \<Rightarrow> calls st' = m \<and> try_fetch (net (m - 1)) = Inl e
           | Returned_undefined \<Rightarrow> False)"
  using assms
proof (induction net m b st arbitrary: r st' rule: fetch_loop.induct)
  case (1 net m b st)
  show ?case
  proof (cases "try_fetch (net (calls st))")
    case (Inr res)
    with "1.prems" show ?thesis
      by (auto simp add: fetch_loop.simps [of net m b st])
  next
    case (Inl err)
    let ?st1 = "st\<lparr>calls := calls st + 1, attempt := attempt st + 1\<rparr>"
    show ?thesis
    proof (cases "attempt ?st1 \<ge> m")
      case True
      then have "m = Suc (calls st)" using "1.prems"(2,4) by simp
      with Inl "1.prems" show ?thesis
        by (auto simp add: fetch_loop.simps [of net "Suc (calls st)" b st])
    next
      case False
      let ?st2 = "?st1\<lparr>sleeps := sleeps ?st1 @ [b * attempt ?st1]\<rparr>"
      from False Inl "1.prems" have run: "fetch_loop net m b ?st2 = (r, st')"
        by (simp add: fetch_loop.simps [of net m b st] Let_def)
      have IH: "calls ?st2 < calls st' \<and> calls st' \<le> m
       \<and> sleeps st' = map (\<lambda>a. b * a) [1..<calls st']
       \<and> (\<forall>k. calls ?st2 \<le> k \<and> k < calls st' - 1 \<longrightarrow> isl (try_fetch (net k)))
       \<and> (case r of
             Returned res \<Rightarrow> try_fetch (net (calls st' - 1)) = Inr res
           | Thrown e \<Rightarrow> calls st' = m \<and> try_fetch (net (m - 1)) = Inl e
           | Returned_undefined \<Rightarrow> False)"
        using "1.IH" [of err ?st1 r st'] "1.prems"(2,3,4) Inl False run
        by (simp add: Let_def)
      have "\<forall>k. calls st \<le> k \<and> k < calls st' - 1 \<longrightarrow> isl (try_fetch (net k))"
      proof (intro allI impI)
        fix k assume k: "calls st \<le> k \<and> k < calls st' - 1"
        show "isl (try_fetch (net k))"
        proof (cases "k = calls st")
          case True
          then show ?thesis using Inl by simp
        next
          case False
          with k IH show ?thesis by simp
        qed
      qed
      with IH show ?thesis by simp
    qed
  qed
qed

text \<open>
  C9. A wrapped fetch is attempted at most 3 times; a response that is not \<open>ok\<close> and a
  rejected call both count as a failed attempt; the delays between consecutive attempts
  are the base times 1, then the base times 2; and when the third attempt fails too, its
  error is the one thrown to the caller. Every call before the last one made has failed,
  and the function never falls out of its loop without a result.
\<close>

theorem C9_fetchWithRetry_three_attempts_linear_backoff:
  "(case fetchWithRetry net 3 backoffMs of (r, st) \<Rightarrow>
      1 \<le> calls st \<and> calls st \<le> 3
    \<and> sleeps st = map (\<lambda>a. backoffMs * a) [1..<calls st]
    \<and> (\<forall>k. k < calls st - 1 \<longrightarrow> isl (try_fetch (net k)))
    \<and> (case r of
          Returned res \<Rightarrow> try_fetch (net (calls st - 1)) = Inr res
        | Thrown e \<Rightarrow> calls st = 3 \<and> try_fetch (net 2) = Inl e
        | Returned_undefined \<Rightarrow> False))
   \<and> try_fetch (Response False status text) = Inl (HttpError status text)
   \<and> try_fetch (Rejected msg) = Inl (NetworkError msg)
   \<and> try_fetch (Response True status text) = Inr (Response True status text)"
proof -
  obtain r st where run: "fetchWithRetry net 3 backoffMs = (r, st)"
    by (cases "fetchWithRetry net 3 backoffMs")
  then have "fetch_loop net 3 backoffMs \<lparr>attempt = 0, calls = 0, sleeps = []\<rparr> = (r, st)"
    by (simp add: fetchWithRetry_def)
  from fetch_loop_invariant [OF this]
  have "1 \<le> calls st \<and> calls st \<le> 3
    \<and> sleeps st = map (\<lambda>a. backoffMs * a) [1..<calls st]
    \<and> (\<forall>k. k < calls st - 1 \<longrightarrow> isl (try_fetch (net k)))
    \<and> (case r of
          Returned res \<Rightarrow> try_fetch (net (calls st - 1)) = Inr res
        | Thrown e \<Rightarrow> calls st = 3 \<and> try_fetch (net 2) = Inl e
        | Returned_undefined \<Rightarrow> False)"
    by (simp split: fetch_result.splits)
  then show ?thesis by (simp add: run try_fetch_def)
qed

text \<open>
  The theorem on a network that resets the first connection, answers 503 to the second
  call and 500 to the third, with the default base of 500 ms: three calls, delays of 500
  and 1000, and the error of the third call thrown.
\<close>

theorem C9_fetchWithRetry_witness:
  "fetchWithRetry (\<lambda>k. if k = 0 then Rejected ''ECONNRESET''
                       else if k = 1 then Response False 503 ''Busy''
                       else Response False 500 ''Server Error'') 3 500
     = (Thrown (HttpError 500 ''Server Error''), \<lparr>attempt = 3, calls = 3, sleeps = [500, 1000]\<rparr>)
   \<and> (case fetchWithRetry (\<lambda>k. if k = 0 then Rejected ''ECONNRESET''
                       else if k = 1 then Response False 503 ''Busy''
                       else Response False 500 ''Server Error'') 3 500 of
        (r, st) \<Rightarrow> calls st \<le> 3 \<and> sleeps st = map (\<lambda>a. 500 * a) [1..<calls st])"
  using C9_fetchWithRetry_three_attempts_linear_backoff
    [where net = "\<lambda>k. if k = 0 then Rejected ''ECONNRESET''
                       else if k = 1 then Response False 503 ''Busy''
                       else Response False 500 ''Server Error''" and backoffMs = 500]
  by (simp add: fetchWithRetry_def try_fetch_def fetch_loop.simps)

section \<open>Properties of the deletion\<close>

lemma set_uniq: "set (uniq seen xs) = set seen \<union> set xs"
  by (induction xs arbitrary: seen) auto

lemma db_request_ok:
  "db_request (\<lambda>_. None) req d =
     (None,
      case req of
        DeleteAll \<Rightarrow> d\<lparr>requests := requests d @ [req], students := []\<rparr>
      | SelectRegisterNo \<Rightarrow> d\<lparr>requests := requests d @ [req]\<rparr>
      | DeleteIn ks \<Rightarrow>
          d\<lparr>requests := requests d @ [req],
            students := filter (\<lambda>r. register_no r \<notin> Some ` set ks) (students d)\<rparr>
      | Upsert batch \<Rightarrow>
          d\<lparr>requests := requests d @ [req], students := fold upsert_row batch (students d)\<rparr>)"
  by (simp add: db_request_def Let_def split: request.splits)

lemma deleteMissingStudents_ok:
  "deleteMissingStudents (\<lambda>_. None) nos d =
     (let U = uniq [] (filter (\<lambda>k. k \<noteq> []) (map key_string nos));
          M = filter (\<lambda>k. k \<notin> set U)
                (filter (\<lambda>k. k \<noteq> []) (map (\<lambda>r. key_string (register_no r)) (students d)))
      in if U = [] then (None, d\<lparr>requests := requests d @ [DeleteAll], students := []\<rparr>)
         else if M = [] then (None, d\<lparr>requests := requests d @ [SelectRegisterNo]\<rparr>)
         else (None, d\<lparr>requests := requests d @ [SelectRegisterNo, DeleteIn M],
                        students := filter (\<lambda>r. register_no r \<notin> Some ` set M) (students d)\<rparr>))"
  by (simp add: deleteMissingStudents_def db_request_ok Let_def)

text \<open>
  C2. Let the source set be the trimmed non-blank keys of the source, and let the stored
  keys be the trimmed non-blank keys the store returns. When no request fails: if the
  source set is empty the deleter issues one delete-all request, after which no row is
  left; otherwise it reads the keys and, if no stored key is missing from the source set,
  issues no deletion at all; otherwise it issues one deletion for the stored keys missing
  from the source set, which as a set are exactly stored minus source. When the keys in
  the store are trimmed and non-blank, as the keys written by the upsert are, the rows
  left are exactly those whose key is in the source set.
\<close>

theorem C2_deleteMissingStudents_stored_minus_source:
  "(let src = set (filter (\<lambda>k. k \<noteq> []) (map key_string sheetRegisterNos));
        stored = filter (\<lambda>k. k \<noteq> []) (map (\<lambda>r. key_string (register_no r)) (students d));
        missing = filter (\<lambda>k. k \<notin> src) stored;
        run = deleteMissingStudents (\<lambda>_. None) sheetRegisterNos d
    in run =
        (if src = {} then (None, d\<lparr>requests := requests d @ [DeleteAll], students := []\<rparr>)
         else if missing = [] then (None, d\<lparr>requests := requests d @ [SelectRegisterNo]\<rparr>)
         else (None, d\<lparr>requests := requests d @ [SelectRegisterNo, DeleteIn missing],
                        students :=
                          filter (\<lambda>r. register_no r \<notin> Some ` set missing) (students d)\<rparr>))
      \<and> set missing = set stored - src
      \<and> (src \<noteq> {} \<and>
           (\<forall>r\<in>set (students d). \<exists>k. register_no r = Some k \<and> k \<noteq> [] \<and> trim k = k)
           \<longrightarrow> students (snd run) = filter (\<lambda>r. register_no r \<in> Some ` src) (students d)))"
proof -
  define U where "U = uniq [] (filter (\<lambda>k. k \<noteq> []) (map key_string sheetRegisterNos))"
  define src where "src = set (filter (\<lambda>k. k \<noteq> []) (map key_string sheetRegisterNos))"
  define stored where
    "stored = filter (\<lambda>k. k \<noteq> []) (map (\<lambda>r. key_string (register_no r)) (students d))"
  define missing where "missing = filter (\<lambda>k. k \<notin> src) stored"
  define run where "run = deleteMissingStudents (\<lambda>_. None) sheetRegisterNos d"
  have setU: "set U = src"
    unfolding U_def src_def by (simp only: set_uniq) simp
  then have Unil: "U = [] \<longleftrightarrow> src = {}"
    by (metis set_empty)
  have run: "run =
        (if src = {} then (None, d\<lparr>requests := requests d @ [DeleteAll], students := []\<rparr>)
         else if missing = [] then (None, d\<lparr>requests := requests d @ [SelectRegisterNo]\<rparr>)
         else (None, d\<lparr>requests := requests d @ [SelectRegisterNo, DeleteIn missing],
                        students :=
                          filter (\<lambda>r. register_no r \<notin> Some ` set missing) (students d)\<rparr>))"
    unfolding run_def deleteMissingStudents_ok Let_def
    unfolding U_def [symmetric] stored_def [symmetric] setU missing_def [symmetric] Unil
    by (rule refl)
  have diff: "set missing = set stored - src"
    unfolding missing_def by auto
  have mirror: "students (snd run) = filter (\<lambda>r. register_no r \<in> Some ` src) (students d)"
    if nonempty: "src \<noteq> {}"
      and keys: "\<forall>r\<in>set (students d). \<exists>k. register_no r = Some k \<and> k \<noteq> [] \<and> trim k = k"
  proof -
    have eq: "register_no r \<notin> Some ` set missing \<longleftrightarrow> register_no r \<in> Some ` src"
      if "r \<in> set (students d)" for r
    proof -
      from keys that obtain k where k: "register_no r = Some k" "k \<noteq> []" "trim k = k"
        by blast
      then have "key_string (register_no r) = k" by (simp add: key_string_def)
      then have "k \<in> set stored" using that k(2) unfolding stored_def by force
      then show ?thesis using k(1) diff by auto
    qed
    have filt: "filter (\<lambda>r. register_no r \<notin> Some ` set missing) (students d)
            = filter (\<lambda>r. register_no r \<in> Some ` src) (students d)"
      using eq by (intro filter_cong) auto
    show ?thesis
    proof (cases "missing = []")
      case True
      have "filter (\<lambda>r. register_no r \<in> Some ` src) (students d) = students d"
        using filt True by simp
      then show ?thesis using run nonempty True by simp
    next
      case False
      then show ?thesis using run nonempty filt by simp
    qed
  qed
  show ?thesis
    unfolding Let_def
    unfolding src_def [symmetric] stored_def [symmetric] missing_def [symmetric]
      run_def [symmetric]
    using run diff mirror by blast
qed

text \<open>
  The theorem at the store with the keys A, B, C: the source keys B, C, D delete exactly
  A, the source keys B, C, A, A delete nothing, and a source without keys deletes all.
\<close>

theorem C2_deleteMissingStudents_witness:
  "deleteMissingStudents (\<lambda>_. None) [Some ''B'', Some ''C'', Some ''D'']
       \<lparr>students = [key_only ''A'', key_only ''B'', key_only ''C''], requests = []\<rparr>
     = (None, \<lparr>students = [key_only ''B'', key_only ''C''],
               requests = [SelectRegisterNo, DeleteIn [''A'']]\<rparr>)
   \<and> deleteMissingStudents (\<lambda>_. None) [Some ''B'', Some '' C'', Some ''A '', Some ''A'']
       \<lparr>students = [key_only ''A'', key_only ''B'', key_only ''C''], requests = []\<rparr>
     = (None, \<lparr>students = [key_only ''A'', key_only ''B'', key_only ''C''],
               requests = [SelectRegisterNo]\<rparr>)
   \<and> deleteMissingStudents (\<lambda>_. None) [Some '' '', None]
       \<lparr>students = [key_only ''A'', key_only ''B'', key_only ''C''], requests = []\<rparr>
     = (None, \<lparr>students = [], requests = [DeleteAll]\<rparr>)"
  using
    C2_deleteMissingStudents_stored_minus_source
      [of "[Some ''B'', Some ''C'', Some ''D'']"
          "\<lparr>students = [key_only ''A'', key_only ''B'', key_only ''C''], requests = []\<rparr>"]
    C2_deleteMissingStudents_stored_minus_source
      [of "[Some ''B'', Some '' C'', Some ''A '', Some ''A'']"
          "\<lparr>students = [key_only ''A'', key_only ''B'', key_only ''C''], requests = []\<rparr>"]
    C2_deleteMissingStudents_stored_minus_source
      [of "[Some '' '', None]"
          "\<lparr>students = [key_only ''A'', key_only ''B'', key_only ''C''], requests = []\<rparr>"]
  by (simp add: Let_def key_string_def trim_def is_ws_def)

section \<open>Properties of the run\<close>

lemma row_loop_validRows:
  "validRows (row_loop rs idx st)
     = validRows st @ map academic_step (filter (\<lambda>r. \<not> falsy (register_no r)) (map trim_strings rs))"
  by (induction rs arbitrary: idx st) (auto simp: Let_def)

lemma row_loop_failedRows:
  "failedRows (row_loop rs idx st)
     = failedRows st @ map (\<lambda>(i, r). (i + 2, ''register_no missing''))
         (filter (\<lambda>(i, r). falsy (register_no (trim_strings r))) (enumerate idx rs))"
  by (induction rs arbitrary: idx st) (auto simp: Let_def)

lemma row_loop_warnings:
  "warnings (row_loop rs idx st)
     = warnings st @ map (\<lambda>(i, r). (i + 2, validateStudent (trim_strings r)))
         (filter (\<lambda>(i, r). validateStudent (trim_strings r) \<noteq> []) (enumerate idx rs))"
  by (induction rs arbitrary: idx st) (auto simp: Let_def)

lemma register_no_academic_step [simp]: "register_no (academic_step r) = register_no r"
  by (simp add: academic_step_def)

lemma upsert_loop_ok:
  "fst (upsert_loop (\<lambda>_. None) ss i n d) = Inr (n + (length ss - i))"
proof (induction "(\<lambda>_. None) :: request \<Rightarrow> string option" ss i n d rule: upsert_loop.induct)
  case (1 ss i upserted d)
  show ?case
  proof (cases "i < length ss")
    case True
    then show ?thesis
      using "1.hyps" [OF True refl, of None "snd (db_request (\<lambda>_. None) (Upsert (map payload (take 500 (drop i ss)))) d)"]
      by (subst upsert_loop.simps) (auto simp add: db_request_ok Let_def min_def)
  next
    case False
    then show ?thesis by (subst upsert_loop.simps) simp
  qed
qed

lemma deleteMissingStudents_no_error: "fst (deleteMissingStudents (\<lambda>_. None) nos d) = None"
  by (simp add: deleteMissingStudents_ok Let_def)


lemma upsert_loop_effect:
  "(case upsert_loop (\<lambda>_. None) ss i n d of
      (r, d') \<Rightarrow>
        r = Inr (n + (length ss - i))
        \<and> students d' = fold upsert_row (map payload (drop i ss)) (students d)
        \<and> concat (map (\<lambda>q. case q of Upsert b \<Rightarrow> b | _ \<Rightarrow> []) (requests d'))
            = concat (map (\<lambda>q. case q of Upsert b \<Rightarrow> b | _ \<Rightarrow> []) (requests d))
              @ map payload (drop i ss))"
proof (induction "(\<lambda>_. None) :: request \<Rightarrow> string option" ss i n d rule: upsert_loop.induct)
  case (1 ss i upserted d)
  show ?case
  proof (cases "i < length ss")
    case True
    let ?batch = "map payload (take 500 (drop i ss))"
    let ?d1 = "d\<lparr>requests := requests d @ [Upsert ?batch],
                  students := fold upsert_row ?batch (students d)\<rparr>"
    have req: "db_request (\<lambda>_. None) (Upsert ?batch) d = (None, ?d1)"
      by (simp add: db_request_ok)
    have split: "map payload (drop i ss) = ?batch @ map payload (drop (i + 500) ss)"
      by (metis add.commute append_take_drop_id drop_drop map_append)
    have step: "upsert_loop (\<lambda>_. None) ss i upserted d
          = upsert_loop (\<lambda>_. None) ss (i + 500) (upserted + length ?batch) ?d1"
      using True by (subst upsert_loop.simps) (simp add: req Let_def)
    have len: "upserted + length ?batch + (length ss - (i + 500)) = upserted + (length ss - i)"
      using True by (simp add: min_def)
    from "1.hyps" [OF True refl req [symmetric] refl]
    show ?thesis
      unfolding step split using len by (simp split: prod.splits)
  next
    case False
    then show ?thesis by (subst upsert_loop.simps) simp
  qed
qed


lemma row_loop_run:
  "row_loop normalized 0 \<lparr>failedRows = [], validRows = [], warnings = []\<rparr> = st \<Longrightarrow>
   validRows st = map academic_step (filter (\<lambda>r. \<not> falsy (register_no r)) (map trim_strings normalized))
   \<and> length (failedRows st) = length (filter (\<lambda>r. falsy (register_no r)) (map trim_strings normalized))
   \<and> length (failedRows st) = length normalized
         - length (filter (\<lambda>r. \<not> falsy (register_no r)) (map trim_strings normalized))"
proof -
  assume run: "row_loop normalized 0 \<lparr>failedRows = [], validRows = [], warnings = []\<rparr> = st"
  have v: "validRows st = map academic_step (filter (\<lambda>r. \<not> falsy (register_no r)) (map trim_strings normalized))"
    using row_loop_validRows [of normalized 0 "\<lparr>failedRows = [], validRows = [], warnings = []\<rparr>"] run by simp
  have "length (filter (\<lambda>(i, r). falsy (register_no (trim_strings r))) (enumerate 0 normalized))
        = length (filter (\<lambda>r. falsy (register_no (trim_strings r))) (map snd (enumerate 0 normalized)))"
    by (simp add: filter_map comp_def case_prod_unfold del: map_snd_enumerate)
  then have f: "length (failedRows st) = length (filter (\<lambda>r. falsy (register_no r)) (map trim_strings normalized))"
    using row_loop_failedRows [of normalized 0 "\<lparr>failedRows = [], validRows = [], warnings = []\<rparr>"] run
    by (simp add: filter_map comp_def)
  have "length (filter (\<lambda>r. falsy (register_no r)) (map trim_strings normalized))
        + length (filter (\<lambda>r. \<not> falsy (register_no r)) (map trim_strings normalized)) = length normalized"
    using sum_length_filter_compl [of "\<lambda>r. falsy (register_no r)" "map trim_strings normalized"] by simp
  with v f show ?thesis by simp
qed


lemma enumerate_nth_mem: "i < length xs \<Longrightarrow> (i, xs ! i) \<in> set (enumerate 0 xs)"
  by (simp add: in_set_enumerate_eq)

section \<open>Properties of the rounding to a double\<close>

lemma halvings_correct:
  "1 \<le> x \<Longrightarrow> 2 ^ halvings x \<le> x \<and> x < 2 ^ Suc (halvings x)"
proof (induction x rule: halvings.induct)
  case (1 x)
  show ?case
  proof (cases "x < 2")
    case True
    then show ?thesis using "1.prems" by (simp add: halvings.simps [of x])
  next
    case False
    then have "1 \<le> x / 2" by simp
    from "1.IH" [OF False this] False show ?thesis
      by (simp add: halvings.simps [of x] field_simps)
  qed
qed

lemma doublings_correct:
  "0 < x \<Longrightarrow> x < 1 \<Longrightarrow> 1 \<le> x * 2 ^ doublings x \<and> x * 2 ^ doublings x < 2"
proof (induction x rule: doublings.induct)
  case (1 x)
  show ?case
  proof (cases "1 \<le> 2 * x")
    case True
    then have "doublings (2 * x) = 0" by (simp add: doublings.simps [of "2 * x"])
    then have "doublings x = 1" using "1.prems" by (simp add: doublings.simps [of x])
    then show ?thesis using True "1.prems" by simp
  next
    case False
    then have lt: "2 * x < 1" by simp
    have pos: "0 < 2 * x" using "1.prems" by simp
    have n: "\<not> (x \<le> 0 \<or> 1 \<le> x)" using "1.prems" by simp
    from "1.IH" [OF n pos lt] "1.prems" show ?thesis
      by (simp add: doublings.simps [of x] mult.assoc)
  qed
qed

lemma ilog2_correct:
  assumes "0 < x"
  shows "2 powi ilog2 x \<le> x \<and> x < 2 powi (ilog2 x + 1)"
proof (cases "1 \<le> x")
  case True
  then show ?thesis using halvings_correct [OF True]
    by (simp add: ilog2_def power_int_add)
next
  case False
  then have lt: "x < 1" by simp
  note d = doublings_correct [OF assms lt]
  have pos: "0 < doublings x"
  proof (rule ccontr)
    assume "\<not> 0 < doublings x"
    then show False using d lt by simp
  qed
  have a: "(2::rat) powi (- int (doublings x)) = 1 / 2 ^ doublings x"
    by (simp add: power_int_minus_divide)
  have b: "(2::rat) powi (1 - int (doublings x)) = 2 / 2 ^ doublings x"
    by (simp add: power_int_diff)
  show ?thesis using False d unfolding ilog2_def by (simp add: a b field_simps)
qed

lemma pow2_less_iff: "(2::rat) powi a < 2 powi b \<longleftrightarrow> a < b"
proof
  assume l: "(2::rat) powi a < 2 powi b"
  show "a < b"
  proof (rule ccontr)
    assume "\<not> a < b"
    then have "(2::rat) powi b \<le> 2 powi a" by (intro power_int_increasing) simp_all
    with l show False by simp
  qed
next
  assume "a < b"
  then show "(2::rat) powi a < 2 powi b" by (intro power_int_strict_increasing) simp_all
qed

lemma pow2_le_iff: "(2::rat) powi a \<le> 2 powi b \<longleftrightarrow> a \<le> b"
  using pow2_less_iff [of b a] by (simp add: not_less [symmetric])

lemma pow2_pos [simp]: "0 < (2::rat) powi a"
  by simp

lemma ilog2_unique:
  assumes "2 powi e \<le> x" "x < 2 powi (e + 1)"
  shows "ilog2 x = e"
proof -
  have "0 < (2::rat) powi e" by simp
  with assms(1) have pos: "0 < x" by linarith
  note c = ilog2_correct [OF pos]
  have "(2::rat) powi e < 2 powi (ilog2 x + 1)" using assms(1) c by linarith
  then have 1: "e < ilog2 x + 1" by (simp only: pow2_less_iff)
  have "(2::rat) powi ilog2 x < 2 powi (e + 1)" using assms(2) c by linarith
  then have 2: "ilog2 x < e + 1" by (simp only: pow2_less_iff)
  from 1 2 show ?thesis by simp
qed

lemma ilog2_mono:
  assumes "0 < x" "x \<le> y"
  shows "ilog2 x \<le> ilog2 y"
proof -
  have "0 < y" using assms by simp
  from ilog2_correct [OF assms(1)] ilog2_correct [OF this] assms(2)
  have "(2::rat) powi ilog2 x < 2 powi (ilog2 y + 1)" by linarith
  then have "ilog2 x < ilog2 y + 1" by (simp only: pow2_less_iff)
  then show ?thesis by simp
qed

subsection \<open>Rounding to an integer\<close>

lemma round_half_even_cases:
  "round_half_even z = \<lfloor>z\<rfloor> \<or> round_half_even z = \<lfloor>z\<rfloor> + 1"
  by (simp add: round_half_even_def Let_def)

lemma round_half_even_near: "\<bar>of_int (round_half_even z) - z\<bar> \<le> 1 / 2"
proof -
  have a: "of_int \<lfloor>z\<rfloor> \<le> z" by (rule of_int_floor_le)
  have b: "z < of_int \<lfloor>z\<rfloor> + 1" using floor_correct [of z] by simp
  show ?thesis
    using a b by (auto simp: round_half_even_def Let_def abs_le_iff)
qed

lemma round_half_even_of_int [simp]: "round_half_even (of_int n) = n"
  by (simp add: round_half_even_def)

lemma round_half_even_mono:
  assumes "z \<le> w"
  shows "round_half_even z \<le> round_half_even w"
proof (cases "\<lfloor>z\<rfloor> = \<lfloor>w\<rfloor>")
  case True
  then show ?thesis using assms by (auto simp: round_half_even_def Let_def)
next
  case False
  moreover have "\<lfloor>z\<rfloor> \<le> \<lfloor>w\<rfloor>" using assms by (rule floor_mono)
  ultimately have "\<lfloor>z\<rfloor> + 1 \<le> \<lfloor>w\<rfloor>" by simp
  moreover have "round_half_even z \<le> \<lfloor>z\<rfloor> + 1" using round_half_even_cases [of z] by auto
  moreover have "\<lfloor>w\<rfloor> \<le> round_half_even w" using round_half_even_cases [of w] by auto
  ultimately show ?thesis by linarith
qed

lemma round_half_even_ge: "of_int n \<le> z \<Longrightarrow> n \<le> round_half_even z"
  using round_half_even_mono [of "of_int n" z] by simp

lemma round_half_even_le: "z \<le> of_int n \<Longrightarrow> round_half_even z \<le> n"
  using round_half_even_mono [of z "of_int n"] by simp


subsection \<open>Rounding to a double\<close>

lemma quantum_pos [simp]: "0 < quantum x"
  by (simp add: quantum_def)

lemma quantum_nonneg [simp]: "0 \<le> quantum x"
  by (rule less_imp_le) (rule quantum_pos)

lemma quantum_neq_0 [simp]: "quantum x \<noteq> 0"
  by (simp add: quantum_def)

lemma nearest_error: "\<bar>nearest x - x\<bar> \<le> quantum x / 2"
proof -
  define q where "q = quantum x"
  have q: "0 < q" by (simp add: q_def)
  have "\<bar>of_int (round_half_even (x / q)) - x / q\<bar> \<le> 1 / 2"
    by (rule round_half_even_near)
  then have "\<bar>of_int (round_half_even (x / q)) - x / q\<bar> * q \<le> 1 / 2 * q"
    using q by (intro mult_right_mono) simp_all
  moreover have "\<bar>of_int (round_half_even (x / q)) - x / q\<bar> * q
      = \<bar>of_int (round_half_even (x / q)) * q - x\<bar>"
  proof -
    have "\<bar>of_int (round_half_even (x / q)) - x / q\<bar> * q
        = \<bar>of_int (round_half_even (x / q)) - x / q\<bar> * \<bar>q\<bar>"
      using q by simp
    also have "\<dots> = \<bar>(of_int (round_half_even (x / q)) - x / q) * q\<bar>"
      by (rule abs_mult [symmetric])
    also have "(of_int (round_half_even (x / q)) - x / q) * q
        = of_int (round_half_even (x / q)) * q - x"
      using q by (simp add: left_diff_distrib)
    finally show ?thesis .
  qed
  ultimately have "\<bar>of_int (round_half_even (x / q)) * q - x\<bar> \<le> 1 / 2 * q" by simp
  then show ?thesis unfolding nearest_def q_def by simp
qed

lemma nearest_le_multiple:
  assumes "x \<le> of_int n * quantum x"
  shows "nearest x \<le> of_int n * quantum x"
proof -
  have "x / quantum x \<le> of_int n" using assms by (simp add: pos_divide_le_eq)
  then have "round_half_even (x / quantum x) \<le> n" by (rule round_half_even_le)
  then have "(of_int (round_half_even (x / quantum x)) :: rat) \<le> of_int n" by simp
  then show ?thesis unfolding nearest_def by (intro mult_right_mono) simp_all
qed

lemma nearest_ge_multiple:
  assumes "of_int n * quantum x \<le> x"
  shows "of_int n * quantum x \<le> nearest x"
proof -
  have "of_int n \<le> x / quantum x" using assms by (simp add: pos_le_divide_eq)
  then have "n \<le> round_half_even (x / quantum x)" by (rule round_half_even_ge)
  then have "(of_int n :: rat) \<le> of_int (round_half_even (x / quantum x))" by simp
  then show ?thesis unfolding nearest_def by (intro mult_right_mono) simp_all
qed

lemma nearest_nonneg: "0 \<le> x \<Longrightarrow> 0 \<le> nearest x"
  using nearest_ge_multiple [of 0 x] by simp

lemma nearest_nonpos: "x \<le> 0 \<Longrightarrow> nearest x \<le> 0"
  using nearest_le_multiple [of x 0] by simp

lemma pow2_multiple:
  assumes "k \<le> e"
  shows "(2::rat) powi e = of_int (2 ^ nat (e - k)) * 2 powi k"
proof -
  have "(2::rat) powi e = 2 powi (e - k) * 2 powi k"
    by (simp add: power_int_add [symmetric])
  also have "(2::rat) powi (e - k) = of_int (2 ^ nat (e - k))"
    using assms by (simp add: power_int_def)
  finally show ?thesis .
qed

lemma nearest_mono:
  assumes "0 < x" "x \<le> y"
  shows "nearest x \<le> nearest y"
proof -
  have y: "0 < y" using assms by simp
  define e where "e = ilog2 x"
  define e' where "e' = ilog2 y"
  define k where "k = max (e - 52) (- 1074)"
  define k' where "k' = max (e' - 52) (- 1074)"
  have qx: "quantum x = 2 powi k" using assms(1) by (simp add: quantum_def k_def e_def)
  have qy: "quantum y = 2 powi k'" using y by (simp add: quantum_def k'_def e'_def)
  have ee: "e \<le> e'" unfolding e_def e'_def using assms by (rule ilog2_mono)
  then have kk: "k \<le> k'" by (simp add: k_def k'_def)
  show ?thesis
  proof (cases "k = k'")
    case True
    then have q: "quantum x = quantum y" by (simp add: qx qy)
    have "x / quantum y \<le> y / quantum y" using assms(2) by (intro divide_right_mono) simp_all
    then have "round_half_even (x / quantum y) \<le> round_half_even (y / quantum y)"
      by (rule round_half_even_mono)
    then have "(of_int (round_half_even (x / quantum y)) :: rat)
        \<le> of_int (round_half_even (y / quantum y))" by simp
    then show ?thesis unfolding nearest_def q by (intro mult_right_mono) simp_all
  next
    case False
    with kk have lt: "k < k'" by simp
    then have k': "k' = e' - 52" by (auto simp: k_def k'_def)
    have ke: "k \<le> e'" using lt k' by simp
    have cx: "x < 2 powi (e + 1)" using ilog2_correct [OF assms(1)] by (simp add: e_def)
    have cy: "2 powi e' \<le> y" using ilog2_correct [OF y] by (simp add: e'_def)
    have "e < e'"
    proof (rule ccontr)
      assume "\<not> e < e'"
      with ee have "e = e'" by simp
      with lt show False by (simp add: k_def k'_def)
    qed
    then have "(2::rat) powi (e + 1) \<le> 2 powi e'" by (simp add: pow2_le_iff)
    with cx have "x \<le> 2 powi e'" by simp
    then have "x \<le> of_int (2 ^ nat (e' - k)) * quantum x"
      using pow2_multiple [OF ke] by (simp add: qx)
    then have "nearest x \<le> of_int (2 ^ nat (e' - k)) * quantum x"
      by (rule nearest_le_multiple)
    then have a: "nearest x \<le> 2 powi e'"
      using pow2_multiple [OF ke] by (simp add: qx)
    have "k' \<le> e'" by (simp add: k')
    from pow2_multiple [OF this] cy
    have "of_int (2 ^ nat (e' - k')) * quantum y \<le> y" by (simp add: qy)
    then have "of_int (2 ^ nat (e' - k')) * quantum y \<le> nearest y"
      by (rule nearest_ge_multiple)
    then have b: "2 powi e' \<le> nearest y"
      using pow2_multiple [OF \<open>k' \<le> e'\<close>] by (simp add: qy)
    from a b show ?thesis by simp
  qed
qed


lemma round_double_zero [simp]: "round_double 0 = Fin 0"
  by (simp add: round_double_def)

lemma round_double_pos:
  assumes "0 < x"
  shows "round_double x = (if 2 ^ 1024 \<le> nearest x then PosInf else Fin (nearest x))"
proof -
  have "0 \<le> nearest x" using assms by (intro nearest_nonneg) simp
  moreover have "- (2 ^ 1024) < (0::rat)" by simp
  ultimately have "\<not> nearest x \<le> - (2 ^ 1024)" by linarith
  then show ?thesis using assms by (simp add: round_double_def Let_def)
qed

lemma round_double_nonpos:
  assumes "x \<le> 0"
  shows "round_double x = NegInf \<or> (\<exists>y. round_double x = Fin y \<and> y \<le> 0)"
proof (cases "x = 0")
  case True
  then show ?thesis by simp
next
  case False
  have n: "nearest x \<le> 0" using assms by (rule nearest_nonpos)
  have "(0::rat) < 2 ^ 1024" by simp
  with n have "\<not> 2 ^ 1024 \<le> nearest x" by linarith
  then show ?thesis using False n by (simp add: round_double_def Let_def)
qed

lemma is_double_pos:
  assumes "is_double b" "0 < b"
  shows "nearest b = b" and "b < 2 ^ 1024"
proof -
  from assms have "(if 2 ^ 1024 \<le> nearest b then PosInf else Fin (nearest b)) = Fin b"
    by (simp add: is_double_def round_double_pos)
  then have "nearest b = b \<and> \<not> 2 ^ 1024 \<le> nearest b"
    by (simp split: if_splits)
  then show "nearest b = b" and "b < 2 ^ 1024" by simp_all
qed

lemma round_double_above:
  assumes "is_double a" "0 \<le> a" "a \<le> x"
  shows "round_double x = PosInf \<or> (\<exists>y. round_double x = Fin y \<and> a \<le> y)"
proof (cases "x = 0")
  case True
  then show ?thesis using assms by simp
next
  case False
  then have x: "0 < x" using assms by simp
  have "a \<le> nearest x"
  proof (cases "a = 0")
    case True
    then show ?thesis using x nearest_nonneg [of x] by simp
  next
    case False
    then have a: "0 < a" using assms by simp
    then have "nearest a \<le> nearest x" using assms(3) by (rule nearest_mono)
    then show ?thesis using is_double_pos(1) [OF assms(1) a] by simp
  qed
  then show ?thesis by (simp add: round_double_pos [OF x])
qed

lemma round_double_between:
  assumes "is_double a" "is_double b" "0 \<le> a" "a \<le> x" "x \<le> b"
  shows "\<exists>y. round_double x = Fin y \<and> a \<le> y \<and> y \<le> b"
proof (cases "x = 0")
  case True
  then show ?thesis using assms by simp
next
  case False
  then have x: "0 < x" using assms by simp
  then have b: "0 < b" using assms by simp
  have "nearest x \<le> nearest b" using x assms(5) by (rule nearest_mono)
  then have le: "nearest x \<le> b" using is_double_pos(1) [OF assms(2) b] by simp
  then have "\<not> 2 ^ 1024 \<le> nearest x" using is_double_pos(2) [OF assms(2) b] by linarith
  then have r: "round_double x = Fin (nearest x)" by (simp add: round_double_pos [OF x])
  from round_double_above [OF assms(1) assms(3) assms(4)] r have "a \<le> nearest x" by simp
  with r le show ?thesis by simp
qed

lemma round_double_error:
  assumes "round_double x = Fin y"
  shows "\<bar>y - x\<bar> \<le> quantum x / 2"
proof (cases "x = 0")
  case True
  then show ?thesis using assms by simp
next
  case False
  then have "y = nearest x" using assms by (simp add: round_double_def Let_def split: if_splits)
  then show ?thesis using nearest_error [of x] by simp
qed

lemma quantum_le:
  assumes "0 < x" "x < 2 powi E" "- 1021 \<le> E"
  shows "quantum x \<le> 2 powi (E - 53)"
proof -
  have "2 powi ilog2 x \<le> x" using ilog2_correct [OF assms(1)] by simp
  with assms(2) have "(2::rat) powi ilog2 x < 2 powi E" by simp
  then have "ilog2 x < E" by (simp add: pow2_less_iff)
  then have "max (ilog2 x - 52) (- 1074) \<le> E - 53" using assms(3) by simp
  then show ?thesis using assms(1) by (simp add: quantum_def pow2_le_iff)
qed

lemma quantum_relative:
  assumes "2 powi (- 1022) \<le> x"
  shows "quantum x \<le> x / 2 ^ 52"
proof -
  have "(0::rat) < 2 powi (- 1022)" by (rule pow2_pos)
  with assms have x: "0 < x" by linarith
  have "ilog2 (2 powi (- 1022)) \<le> ilog2 x" using \<open>(0::rat) < 2 powi (- 1022)\<close> assms by (rule ilog2_mono)
  moreover have "ilog2 ((2::rat) powi (- 1022)) = - 1022"
    by (rule ilog2_unique) (simp_all add: pow2_less_iff)
  ultimately have "- 1022 \<le> ilog2 x" by simp
  then have "max (ilog2 x - 52) (- 1074) = ilog2 x - 52" by linarith
  then have "quantum x = 2 powi (ilog2 x - 52)" using x by (simp add: quantum_def)
  also have "\<dots> = 2 powi ilog2 x / 2 powi 52" by (rule power_int_diff) simp
  also have "\<dots> = 2 powi ilog2 x / 2 ^ 52" by simp
  also have "\<dots> \<le> x / 2 ^ 52"
    using ilog2_correct [OF x] by (intro divide_right_mono) simp_all
  finally show ?thesis .
qed

lemma round_double_eval:
  assumes "2 powi e \<le> \<bar>x\<bar>" "\<bar>x\<bar> < 2 powi (e + 1)" "- 1022 \<le> e"
    and "round_half_even (x / 2 powi (e - 52)) = n"
    and "\<bar>of_int n * 2 powi (e - 52)\<bar> < (2::rat) ^ 1024"
  shows "round_double x = Fin (of_int n * 2 powi (e - 52))"
proof -
  have "(0::rat) < 2 powi e" by (rule pow2_pos)
  with assms(1) have "0 < \<bar>x\<bar>" by linarith
  then have x: "x \<noteq> 0" by simp
  have "max (e - 52) (- 1074) = e - 52" using assms(3) by linarith
  moreover have "ilog2 \<bar>x\<bar> = e" using assms(1,2) by (rule ilog2_unique)
  ultimately have "quantum x = 2 powi (e - 52)" by (simp add: quantum_def)
  then have "nearest x = of_int n * 2 powi (e - 52)" by (simp add: nearest_def assms(4))
  then show ?thesis using x assms(5) by (simp add: round_double_def Let_def abs_less_iff not_le)
qed

lemma nearest_of_int_multiple:
  assumes "x = of_int m * quantum x"
  shows "nearest x = x"
proof -
  have "x / quantum x = of_int m * quantum x / quantum x" using assms by simp
  also have "\<dots> = of_int m" by simp
  finally have "round_half_even (x / quantum x) = m" by (simp only: round_half_even_of_int)
  then show ?thesis unfolding nearest_def using assms by simp
qed

lemma round_double_of_int:
  assumes "\<bar>n\<bar> \<le> 2 ^ 53"
  shows "round_double (of_int n) = Fin (of_int n)"
proof (cases "n = 0")
  case True
  then show ?thesis by simp
next
  case False
  define x :: rat where "x = of_int n"
  define e where "e = ilog2 \<bar>x\<bar>"
  have ax: "\<bar>x\<bar> = of_int \<bar>n\<bar>" by (simp add: x_def)
  have "1 \<le> \<bar>n\<bar>" using False by simp
  then have "(of_int 1 :: rat) \<le> of_int \<bar>n\<bar>" by (simp only: of_int_le_iff)
  then have x1: "1 \<le> \<bar>x\<bar>" by (simp only: ax of_int_1)
  then have pos: "0 < \<bar>x\<bar>" by linarith
  have c: "2 powi e \<le> \<bar>x\<bar>" "\<bar>x\<bar> < 2 powi (e + 1)"
    using ilog2_correct [OF pos] by (simp_all add: e_def)
  have "(2::rat) powi 0 \<le> \<bar>x\<bar>" using x1 by simp
  with c(2) have "(2::rat) powi 0 < 2 powi (e + 1)" by linarith
  then have "0 < e + 1" by (simp only: pow2_less_iff)
  then have e0: "0 \<le> e" by simp
  have "(of_int \<bar>n\<bar> :: rat) \<le> of_int (2 ^ 53)" using assms by (simp only: of_int_le_iff)
  then have x53: "\<bar>x\<bar> \<le> 2 powi 53" by (simp add: ax)
  with c(1) have "(2::rat) powi e \<le> 2 powi 53" by linarith
  then have e53: "e \<le> 53" by (simp only: pow2_le_iff)
  have "max (e - 52) (- 1074) = e - 52" using e0 by linarith
  then have q: "quantum x = 2 powi (e - 52)" by (simp add: quantum_def e_def)
  have "\<exists>m. x = of_int m * quantum x"
  proof (cases "e \<le> 52")
    case True
    then have "(2::rat) powi 0 = of_int (2 ^ nat (0 - (e - 52))) * 2 powi (e - 52)"
      by (intro pow2_multiple) simp
    then have "(1::rat) = of_int (2 ^ nat (52 - e)) * quantum x" by (simp add: q)
    then have "x = of_int n * (of_int (2 ^ nat (52 - e)) * quantum x)"
      by (simp add: x_def)
    then have "x = of_int (n * 2 ^ nat (52 - e)) * quantum x"
      by (simp only: of_int_mult mult.assoc)
    then show ?thesis ..
  next
    case False
    with e53 have e: "e = 53" by simp
    have "(2::rat) powi 53 \<le> \<bar>x\<bar>" using c(1) by (simp only: e)
    with x53 have "\<bar>x\<bar> = 2 powi 53" by linarith
    then have "(of_int \<bar>n\<bar> :: rat) = of_int (2 ^ 53)" by (simp add: ax)
    then have "\<bar>n\<bar> = 2 ^ 53" by (simp only: of_int_eq_iff)
    then have "even \<bar>n\<bar>" by simp
    then have "even n" by simp
    then obtain k where "n = 2 * k" by (elim evenE)
    then have "x = of_int k * 2" by (simp add: x_def)
    moreover have "quantum x = 2" by (simp add: q e)
    ultimately have "x = of_int k * quantum x" by simp
    then show ?thesis ..
  qed
  then obtain m where m: "x = of_int m * quantum x" ..
  then have "nearest x = x" by (rule nearest_of_int_multiple)
  moreover have "(2::rat) powi 53 < 2 powi 1024" by (simp only: pow2_less_iff)
  then have "\<bar>x\<bar> < 2 powi 1024" using x53 by linarith
  then have "\<not> 2 ^ 1024 \<le> x" "\<not> x \<le> - (2 ^ 1024)" by (simp_all add: abs_less_iff)
  moreover have "x \<noteq> 0" using pos by simp
  ultimately show ?thesis unfolding round_double_def x_def [symmetric] Let_def by simp
qed


lemma round_double_overflow:
  assumes "2 ^ 1024 \<le> x"
  shows "round_double x = PosInf"
proof -
  define m :: rat where "m = 2 ^ 1024"
  have m: "0 < m" by (simp add: m_def)
  have "ilog2 \<bar>m\<bar> = 1024"
    by (rule ilog2_unique) (simp_all add: m_def)
  then have q: "quantum m = 2 powi 972" by (simp add: quantum_def)
  have eq: "m = of_int (2 ^ 52) * 2 powi 972" by (simp add: m_def)
  have "m = of_int (2 ^ 52) * quantum m" unfolding q by (rule eq)
  then have "nearest m = m" by (rule nearest_of_int_multiple)
  moreover have "nearest m \<le> nearest x" using m assms unfolding m_def by (rule nearest_mono)
  ultimately have "2 ^ 1024 \<le> nearest x" by (simp add: m_def)
  moreover have "0 < x" using m assms unfolding m_def by linarith
  ultimately show ?thesis by (simp add: round_double_pos)
qed

lemma is_double_of_int: "\<bar>n\<bar> \<le> 2 ^ 53 \<Longrightarrow> is_double (of_int n)"
  unfolding is_double_def by (rule round_double_of_int)

lemma is_double_numerals [simp]:
  "is_double 0" "is_double 1" "is_double 100" "is_double 10000"
  using is_double_of_int [of 0] is_double_of_int [of 1] is_double_of_int [of 100]
    is_double_of_int [of 10000]
  by simp_all

lemma round_double_numerals [simp]:
  "round_double 1 = Fin 1" "round_double 2 = Fin 2" "round_double 5 = Fin 5"
  "round_double 20 = Fin 20" "round_double 100 = Fin 100" "round_double 200 = Fin 200"
  "round_double 9000 = Fin 9000" "round_double 10000 = Fin 10000" "round_double 20000 = Fin 20000"
  using round_double_of_int [of 1] round_double_of_int [of 2] round_double_of_int [of 5]
    round_double_of_int [of 20] round_double_of_int [of 100] round_double_of_int [of 200]
    round_double_of_int [of 9000] round_double_of_int [of 10000] round_double_of_int [of 20000]
  by simp_all

lemma floor_rat_divide_numeral [simp]:
  "\<lfloor>numeral a / numeral b :: rat\<rfloor> = numeral a div numeral b"
  by (metis floor_divide_of_int_eq of_int_numeral)

section \<open>Properties of the attendance percentage\<close>

lemma or_zero_simps [simp]:
  "or_zero None = 0" "or_zero (Some Null) = 0" "or_zero (Some (Num n)) = n"
  by (simp_all add: or_zero_def)

lemma ToNumber_simps [simp]:
  "ToNumber None = NaN" "ToNumber (Some Null) = Fin 0" "ToNumber (Some (Num n)) = Fin n"
  by (simp_all add: ToNumber_def)

lemma times_double_simps [simp]:
  "times_double (Fin a) c = round_double (a * c)"
  "times_double NaN c = NaN"
  "times_double PosInf 100 = PosInf"
  "times_double NegInf 100 = NegInf"
  by (simp_all add: times_double_def)

lemma isFinite_simps [simp]:
  "isFinite (Fin a)" "\<not> isFinite NaN" "\<not> isFinite PosInf" "\<not> isFinite NegInf"
  by (simp_all add: isFinite_def)

lemma greater_than_simps [simp]:
  "greater_than (Fin a) c \<longleftrightarrow> c < a" "greater_than PosInf c"
  "\<not> greater_than NegInf c" "\<not> greater_than NaN c"
  by (simp_all add: greater_than_def)

lemma Math_round_simps [simp]:
  "Math_round (Fin a) = Fin (of_int \<lfloor>a + 1 / 2\<rfloor>)"
  "Math_round NaN = NaN" "Math_round PosInf = PosInf" "Math_round NegInf = NegInf"
  by (simp_all add: Math_round_def)

lemma floor_half [simp]: "\<lfloor>1 / 2 :: rat\<rfloor> = 0"
  by (simp add: floor_eq_iff)

lemma two_decimals_simps [simp]:
  "two_decimals NaN = Fin 0" "two_decimals PosInf = Fin 0" "two_decimals NegInf = Fin 0"
  "two_decimals (Fin 0) = Fin 0"
  by (simp_all add: two_decimals_def)

lemma deriveAttendance_cases:
  "deriveAttendance p l =
     (case round_double (or_zero p + or_zero l) of
        Fin t \<Rightarrow> (if 0 < t \<and> p \<noteq> None
                  then two_decimals (times_double (round_double (or_zero p / t)) 100)
                  else Fin 0)
      | _ \<Rightarrow> Fin 0)"
proof (cases "round_double (or_zero p + or_zero l)")
  case (Fin t)
  show ?thesis
  proof (cases p)
    case None
    then show ?thesis using Fin
      by (simp add: deriveAttendance_def add_double_def Let_def two_decimals_def)
  next
    case (Some a)
    then show ?thesis using Fin
      by (cases a) (simp_all add: deriveAttendance_def add_double_def Let_def two_decimals_def)
  qed
next
  case PosInf
  then show ?thesis
    by (cases "ToNumber p")
      (simp_all add: deriveAttendance_def add_double_def Let_def two_decimals_def)
next
  case NegInf
  then show ?thesis by (simp add: deriveAttendance_def add_double_def Let_def)
next
  case NaN
  then show ?thesis by (simp add: deriveAttendance_def add_double_def Let_def)
qed

lemma derive_twice:
  "deriveAttendance (Some (Num (or_zero p))) (Some (Num (or_zero l))) = deriveAttendance p l"
proof (cases p)
  case None
  then show ?thesis
    by (cases "round_double (or_zero l)") (simp_all add: deriveAttendance_cases)
next
  case (Some a)
  then show ?thesis by (cases a) (simp_all add: deriveAttendance_cases split: number.split)
qed


lemma round_double_more_numerals [simp]:
  "round_double 3 = Fin 3" "round_double 18 = Fin 18" "round_double 90 = Fin 90"
  "round_double 160 = Fin 160"
  using round_double_of_int [of 3] round_double_of_int [of 18] round_double_of_int [of 90]
    round_double_of_int [of 160]
  by simp_all

text \<open>The roundings that occur in the examples.\<close>

lemma quotient_18_20: "round_double (9 / 10) = Fin (8106479329266893 / 9007199254740992)"
  using round_double_eval [where x = "9 / 10" and e = "- 1" and n = 8106479329266893]
  by (simp add: round_half_even_def Let_def)

lemma percent_18_20: "round_double (202661983231672325 / 2251799813685248) = Fin 90"
  using round_double_eval [where x = "202661983231672325 / 2251799813685248" and e = "6" and n = 6333186975989760]
  by (simp add: round_half_even_def Let_def)

lemma quotient_23_160: "round_double (23 / 160) = Fin (2589569785738035 / 18014398509481984)"
  using round_double_eval [where x = "23 / 160" and e = "- 3" and n = 5179139571476070]
  by (simp add: round_half_even_def Let_def)

lemma percent_23_160: "round_double (64739244643450875 / 4503599627370496) = Fin (8092405580431359 / 562949953421312)"
  using round_double_eval [where x = "64739244643450875 / 4503599627370496" and e = "3" and n = 8092405580431359]
  by (simp add: round_half_even_def Let_def)

lemma scaled_23_160: "round_double (202310139510783975 / 140737488355328) = Fin (6322191859711999 / 4398046511104)"
  using round_double_eval [where x = "202310139510783975 / 140737488355328" and e = "10" and n = 6322191859711999]
  by (simp add: round_half_even_def Let_def)

lemma double_1437_100: "round_double (1437 / 100) = Fin (8089590830664253 / 562949953421312)"
  using round_double_eval [where x = "1437 / 100" and e = "3" and n = 8089590830664253]
  by (simp add: round_half_even_def Let_def)

lemma double_1438_100: "round_double (719 / 50) = Fin (8095220330198467 / 562949953421312)"
  using round_double_eval [where x = "719 / 50" and e = "3" and n = 8095220330198467]
  by (simp add: round_half_even_def Let_def)

lemma quotient_1_3: "round_double (1 / 3) = Fin (6004799503160661 / 18014398509481984)"
  using round_double_eval [where x = "1 / 3" and e = "- 2" and n = 6004799503160661]
  by (simp add: round_half_even_def Let_def)

lemma percent_1_3: "round_double (150119987579016525 / 4503599627370496) = Fin (2345624805922133 / 70368744177664)"
  using round_double_eval [where x = "150119987579016525 / 4503599627370496" and e = "5" and n = 4691249611844266]
  by (simp add: round_half_even_def Let_def)

lemma scaled_1_3: "round_double (58640620148053325 / 17592186044416) = Fin (3665038759253333 / 1099511627776)"
  using round_double_eval [where x = "58640620148053325 / 17592186044416" and e = "11" and n = 7330077518506666]
  by (simp add: round_half_even_def Let_def)

lemma double_3333_100: "round_double (3333 / 100) = Fin (2345390243441541 / 70368744177664)"
  using round_double_eval [where x = "3333 / 100" and e = "5" and n = 4690780486883082]
  by (simp add: round_half_even_def Let_def)

lemma deriveAttendance_examples:
  "deriveAttendance (Some (Num 18)) (Some (Num 2)) = Fin 90"
  "deriveAttendance (Some (Num 0)) (Some (Num 0)) = Fin 0"
  "deriveAttendance (Some (Num 18)) (Some Null) = Fin 100"
  "deriveAttendance (Some (Num 10)) (Some (Num (- 5))) = Fin 200"
  "deriveAttendance (Some (Num 23)) (Some (Num 137)) = Fin (8089590830664253 / 562949953421312)"
  "deriveAttendance (Some (Num 1)) (Some (Num 2)) = Fin (2345390243441541 / 70368744177664)"
  by (simp_all add: deriveAttendance_cases two_decimals_def quotient_18_20 percent_18_20
    quotient_23_160 percent_23_160 scaled_23_160 double_1437_100 quotient_1_3 percent_1_3
    scaled_1_3 double_3333_100)

lemma round_double_error_bound:
  assumes "round_double x = Fin y" "0 \<le> x" "x < 2 powi E" "- 1021 \<le> E"
  shows "\<bar>y - x\<bar> \<le> 2 powi (E - 54)"
proof (cases "x = 0")
  case True
  then show ?thesis using assms(1) by simp
next
  case False
  then have x: "0 < x" using assms(2) by simp
  have "\<bar>y - x\<bar> \<le> quantum x / 2" using assms(1) by (rule round_double_error)
  moreover have "quantum x \<le> 2 powi (E - 53)" using x assms(3,4) by (rule quantum_le)
  moreover have "(2::rat) powi (E - 53) = 2 powi (E - 54 + 1)" by simp
  then have "(2::rat) powi (E - 53) = 2 powi (E - 54) * 2"
    by (simp only: power_int_add_1 [of "2::rat", simplified])
  ultimately show ?thesis by linarith
qed

lemma two_decimals_Fin:
  assumes "0 \<le> r" "r \<le> 100"
  obtains u n y where "round_double (r * 100) = Fin u" "0 \<le> u" "u \<le> 10000"
    "n = \<lfloor>u + 1 / 2\<rfloor>" "0 \<le> n" "n \<le> 10000"
    "round_double (of_int n / 100) = Fin y" "0 \<le> y" "y \<le> 100"
    "two_decimals (Fin r) = Fin y"
proof -
  have "0 \<le> r * 100" "r * 100 \<le> 10000" using assms by simp_all
  with round_double_between [of 0 10000 "r * 100"]
  obtain u where u: "round_double (r * 100) = Fin u" "0 \<le> u" "u \<le> 10000" by auto
  define n where "n = \<lfloor>u + 1 / 2\<rfloor>"
  have n: "0 \<le> n" "n \<le> 10000" using u(2,3) unfolding n_def by linarith+
  then have "(0::rat) \<le> of_int n / 100" "(of_int n :: rat) / 100 \<le> 100" by simp_all
  with round_double_between [of 0 100 "of_int n / 100"]
  obtain y where y: "round_double (of_int n / 100) = Fin y" "0 \<le> y" "y \<le> 100" by auto
  have td: "two_decimals (Fin r) = Fin y"
    by (simp add: two_decimals_def u(1) y(1) [unfolded n_def])
  show ?thesis by (rule that [OF u n_def n y td])
qed

lemma percentage_Fin:
  assumes "0 \<le> p" "p \<le> t" "0 < t"
  obtains q r where "round_double (p / t) = Fin q" "0 \<le> q" "q \<le> 1"
    "round_double (q * 100) = Fin r" "0 \<le> r" "r \<le> 100"
proof -
  have "0 \<le> p / t" "p / t \<le> 1" using assms by simp_all
  with round_double_between [of 0 1 "p / t"]
  obtain q where q: "round_double (p / t) = Fin q" "0 \<le> q" "q \<le> 1" by auto
  then have "0 \<le> q * 100" "q * 100 \<le> 100" by simp_all
  with round_double_between [of 0 100 "q * 100"]
  obtain r where "round_double (q * 100) = Fin r" "0 \<le> r" "r \<le> 100" by auto
  with q show ?thesis by (rule that)
qed

lemma deriveAttendance_nonpos:
  assumes "or_zero p + or_zero l \<le> 0"
  shows "deriveAttendance p l = Fin 0"
  using round_double_nonpos [OF assms] by (auto simp: deriveAttendance_cases)

lemma deriveAttendance_range:
  assumes "is_double (or_zero p)"
    and "or_zero p + or_zero l \<le> 0 \<or> (0 \<le> or_zero p \<and> 0 \<le> or_zero l)"
  shows "\<exists>y. deriveAttendance p l = Fin y \<and> 0 \<le> y \<and> y \<le> 100"
proof (cases "or_zero p + or_zero l \<le> 0")
  case True
  then have "deriveAttendance p l = Fin 0" by (rule deriveAttendance_nonpos)
  then show ?thesis by simp
next
  case False
  with assms(2) have nn: "0 \<le> or_zero p" "0 \<le> or_zero l" by simp_all
  then have "or_zero p \<le> or_zero p + or_zero l" by simp
  from round_double_above [OF assms(1) nn(1) this]
  show ?thesis
  proof (elim disjE exE conjE)
    assume "round_double (or_zero p + or_zero l) = PosInf"
    then show ?thesis by (simp add: deriveAttendance_cases)
  next
    fix t
    assume t: "round_double (or_zero p + or_zero l) = Fin t" "or_zero p \<le> t"
    show ?thesis
    proof (cases "0 < t \<and> p \<noteq> None")
      case False
      then show ?thesis using t(1) by (simp add: deriveAttendance_cases)
    next
      case True
      then have "0 < t" by simp
      from percentage_Fin [OF nn(1) t(2) this]
      obtain q r where q: "round_double (or_zero p / t) = Fin q"
        and r: "round_double (q * 100) = Fin r" "0 \<le> r" "r \<le> 100" by metis
      from two_decimals_Fin [OF r(2,3)]
      obtain y where y: "two_decimals (Fin r) = Fin y" "0 \<le> y" "y \<le> 100" by metis
      have "deriveAttendance p l = Fin y"
        using True t(1) by (simp add: deriveAttendance_cases q r(1) y(1))
      with y show ?thesis by simp
    qed
  qed
qed


lemma round_double_sum:
  assumes "2 powi (- 1022) \<le> s" "s < 2 ^ 1023"
  obtains t where "round_double s = Fin t" "\<bar>t - s\<bar> \<le> s / 2 ^ 53" "0 < t"
proof -
  have "(0::rat) < 2 powi (- 1022)" by (rule pow2_pos)
  with assms(1) have s: "0 < s" by linarith
  have q: "quantum s \<le> s / 2 ^ 52" using assms(1) by (rule quantum_relative)
  have "\<bar>nearest s - s\<bar> \<le> quantum s / 2" by (rule nearest_error)
  also have "\<dots> \<le> s / 2 ^ 52 / 2" using q by (intro divide_right_mono) simp_all
  also have "\<dots> = s / 2 ^ 53" by simp
  finally have e: "\<bar>nearest s - s\<bar> \<le> s / 2 ^ 53" .
  have "s / 2 ^ 53 < s" using s by simp
  with e have "nearest s < 2 * s" "0 < nearest s" by linarith+
  moreover have "2 * s < 2 * 2 ^ 1023" using assms(2) by simp
  ultimately have "nearest s < 2 ^ 1024" by simp
  then have "round_double s = Fin (nearest s)" using s by (simp add: round_double_pos)
  then show ?thesis using e \<open>0 < nearest s\<close> by (rule that)
qed

lemma quotient_error:
  fixes p t s :: rat
  assumes "0 \<le> p" "p \<le> t" "0 < t" "0 < s" "\<bar>t - s\<bar> \<le> s / 2 ^ 53"
  shows "\<bar>p / t - p / s\<bar> \<le> 1 / 2 ^ 53"
proof -
  have "t \<noteq> 0" using assms(3) by auto
  moreover have "s \<noteq> 0" using assms(4) by auto
  ultimately have "p / t - p / s = p / t * ((s - t) / s)" by (simp add: field_simps)
  then have "\<bar>p / t - p / s\<bar> = \<bar>p / t\<bar> * \<bar>(s - t) / s\<bar>" by (simp only: abs_mult)
  moreover have "\<bar>p / t\<bar> \<le> 1" using assms(1,2,3) by simp
  moreover have "\<bar>(s - t) / s\<bar> \<le> 1 / 2 ^ 53"
  proof -
    have "\<bar>(s - t) / s\<bar> = \<bar>t - s\<bar> / s" using assms(4) by (simp add: abs_minus_commute)
    also have "\<dots> \<le> s / 2 ^ 53 / s" using assms(4,5) by (intro divide_right_mono) simp_all
    also have "\<dots> = 1 / 2 ^ 53" using assms(4) by simp
    finally show ?thesis .
  qed
  ultimately show ?thesis
    using mult_mono [of "\<bar>p / t\<bar>" 1 "\<bar>(s - t) / s\<bar>" "1 / 2 ^ 53"] by simp
qed

lemma error_chain:
  fixes a b c :: rat
  assumes "\<bar>a - k * b\<bar> \<le> d" "\<bar>b - c\<bar> \<le> e" "0 \<le> k"
  shows "\<bar>a - k * c\<bar> \<le> d + k * e"
proof -
  have "\<bar>k * b - k * c\<bar> = k * \<bar>b - c\<bar>"
    using assms(3) by (simp add: abs_mult flip: right_diff_distrib)
  also have "\<dots> \<le> k * e" using assms(2,3) by (rule mult_left_mono)
  finally have "\<bar>k * b - k * c\<bar> \<le> k * e" .
  with assms(1) show ?thesis by linarith
qed

lemma deriveAttendance_accuracy:
  assumes "is_double p" "0 \<le> p" "0 \<le> l" "2 powi (- 1022) \<le> p + l" "p + l < 2 ^ 1023"
  shows "\<exists>n y. deriveAttendance (Some (Num p)) (Some (Num l)) = Fin y
           \<and> round_double (of_int n / 100) = Fin y
           \<and> 0 \<le> n \<and> n \<le> 10000
           \<and> \<bar>of_int n - 10000 * (p / (p + l))\<bar> \<le> 1 / 2 + 1 / 2 ^ 37
           \<and> \<bar>y - 100 * (p / (p + l))\<bar> \<le> 1 / 200 + 1 / 2 ^ 43"
proof -
  define s where "s = p + l"
  define x where "x = p / s"
  from round_double_sum [OF assms(4,5)]
  obtain t where t: "round_double s = Fin t" "\<bar>t - s\<bar> \<le> s / 2 ^ 53" "0 < t"
    unfolding s_def by metis
  have "(0::rat) < 2 powi (- 1022)" by (rule pow2_pos)
  with assms(4) have s: "0 < s" unfolding s_def by linarith
  have "p \<le> s" using assms(3) by (simp add: s_def)
  from round_double_above [OF assms(1,2) this] t(1) have pt: "p \<le> t" by simp
  from percentage_Fin [OF assms(2) pt t(3)]
  obtain q r where q: "round_double (p / t) = Fin q" "0 \<le> q" "q \<le> 1"
    and r: "round_double (q * 100) = Fin r" "0 \<le> r" "r \<le> 100" by metis
  from two_decimals_Fin [OF r(2,3)]
  obtain u n y where u: "round_double (r * 100) = Fin u" "0 \<le> u" "u \<le> 10000"
    and n: "n = \<lfloor>u + 1 / 2\<rfloor>" "0 \<le> n" "n \<le> 10000"
    and y: "round_double (of_int n / 100) = Fin y" "two_decimals (Fin r) = Fin y" by metis
  define N :: rat where "N = of_int n"
  have d: "deriveAttendance (Some (Num p)) (Some (Num l)) = Fin y"
    using t(1,3) by (simp add: deriveAttendance_cases s_def [symmetric] q(1) r(1) y(2))
  have e1: "\<bar>p / t - x\<bar> \<le> 1 / 2 ^ 53"
    unfolding x_def using assms(2) pt t(3) s t(2) by (rule quotient_error)
  have "p / t \<le> 1" using pt t(3) by simp
  then have "p / t < 2" by linarith
  then have "0 \<le> p / t" "p / t < 2 powi 1" using assms(2) t(3) by simp_all
  from round_double_error_bound [OF q(1) this]
  have e2: "\<bar>q - 1 * (p / t)\<bar> \<le> 1 / 2 ^ 53" by (simp add: power_int_minus field_simps)
  have "0 \<le> q * 100" "q * 100 < 2 powi 7" using q(2,3) by simp_all
  from round_double_error_bound [OF r(1) this]
  have e3: "\<bar>r - 100 * q\<bar> \<le> 1 / 2 ^ 47" by (simp add: power_int_minus field_simps)
  have "0 \<le> r * 100" "r * 100 < 2 powi 14" using r(2,3) by simp_all
  from round_double_error_bound [OF u(1) this]
  have e4: "\<bar>u - 100 * r\<bar> \<le> 1 / 2 ^ 40" by (simp add: power_int_minus field_simps)
  have "\<bar>N - u\<bar> \<le> 1 / 2" unfolding N_def n(1) by linarith
  then have e5: "\<bar>N - 1 * u\<bar> \<le> 1 / 2" by simp
  have "(0::rat) \<le> N / 100" "N / 100 < 2 powi 7" using n(2,3) by (simp_all add: N_def)
  from round_double_error_bound [OF y(1) [folded N_def] this]
  have e6: "\<bar>y - (1 / 100) * N\<bar> \<le> 1 / 2 ^ 47" by (simp add: power_int_minus field_simps)
  have f1: "\<bar>q - 1 * x\<bar> \<le> 1 / 2 ^ 53 + 1 * (1 / 2 ^ 53)"
    by (rule error_chain [OF e2 e1]) simp
  have f2: "\<bar>r - 100 * x\<bar> \<le> 1 / 2 ^ 47 + 100 * (1 / 2 ^ 53 + 1 * (1 / 2 ^ 53))"
    using error_chain [OF e3 f1] by simp
  have f3: "\<bar>u - 100 * (100 * x)\<bar>
      \<le> 1 / 2 ^ 40 + 100 * (1 / 2 ^ 47 + 100 * (1 / 2 ^ 53 + 1 * (1 / 2 ^ 53)))"
    by (rule error_chain [OF e4 f2]) simp
  have f4: "\<bar>N - 1 * (100 * (100 * x))\<bar>
      \<le> 1 / 2 + 1 * (1 / 2 ^ 40 + 100 * (1 / 2 ^ 47 + 100 * (1 / 2 ^ 53 + 1 * (1 / 2 ^ 53))))"
    by (rule error_chain [OF e5 f3]) simp
  have "(1::rat) * (1 / 2 ^ 40 + 100 * (1 / 2 ^ 47 + 100 * (1 / 2 ^ 53 + 1 * (1 / 2 ^ 53))))
      \<le> 1 / 2 ^ 37" by simp
  with f4 have "\<bar>N - 1 * (100 * (100 * x))\<bar> \<le> 1 / 2 + 1 / 2 ^ 37" by linarith
  then have a: "\<bar>N - 10000 * x\<bar> \<le> 1 / 2 + 1 / 2 ^ 37" by simp
  have "\<bar>y - (1 / 100) * (10000 * x)\<bar> \<le> 1 / 2 ^ 47 + (1 / 100) * (1 / 2 + 1 / 2 ^ 37)"
    by (rule error_chain [OF e6 a]) simp
  moreover have "(1::rat) / 2 ^ 47 + (1 / 100) * (1 / 2 + 1 / 2 ^ 37) \<le> 1 / 200 + 1 / 2 ^ 43"
    by simp
  ultimately have "\<bar>y - (1 / 100) * (10000 * x)\<bar> \<le> 1 / 200 + 1 / 2 ^ 43" by linarith
  then have b: "\<bar>y - 100 * x\<bar> \<le> 1 / 200 + 1 / 2 ^ 43" by simp
  from d y(1) n(2,3) a b show ?thesis
    unfolding N_def x_def s_def by blast
qed

section \<open>Properties of the payload\<close>

subsection \<open>Trimming\<close>

lemma trim_Nil [simp]: "trim [] = []"
  by (simp add: trim_def)

lemma dropWhile_rev_dropWhile_rev:
  "dropWhile P (rev (dropWhile P (rev (dropWhile P s)))) = rev (dropWhile P (rev (dropWhile P s)))"
  by (metis (no_types, lifting) ext Nil_is_rev_conv dropWhile_eq_Nil_conv
    dropWhile_eq_self_iff dropWhile_idem dropWhile_last hd_rev
    last_rev)

lemma trim_idem [simp]: "trim (trim s) = trim s"
  by (simp add: trim_def dropWhile_rev_dropWhile_rev dropWhile_idem)

subsection \<open>The rows sent by a run\<close>

lemma sync_normalized_keyed:
  "sync_normalized faults normalized d =
     (case deleteMissingStudents faults
             (map register_no (filter (\<lambda>r. \<not> falsy (register_no r)) (map trim_strings normalized))) d of
        (Some e, d') \<Rightarrow> (Inl e, d')
      | (None, d') \<Rightarrow>
          (case upsertStudents faults
                  (map academic_step (filter (\<lambda>r. \<not> falsy (register_no r)) (map trim_strings normalized))) d' of
             (Inl e, d'') \<Rightarrow> (Inl e, d'')
           | (Inr n, d'') \<Rightarrow>
               (Inr \<lparr>total_rows = length normalized, processed_rows = n,
                     failed_rows = length normalized
                       - length (filter (\<lambda>r. \<not> falsy (register_no r)) (map trim_strings normalized))\<rparr>, d'')))"
proof -
  define st where "st = row_loop normalized 0 \<lparr>failedRows = [], validRows = [], warnings = []\<rparr>"
  have v: "validRows st = map academic_step
              (filter (\<lambda>r. \<not> falsy (register_no r)) (map trim_strings normalized))"
    and f: "length (failedRows st) = length normalized
              - length (filter (\<lambda>r. \<not> falsy (register_no r)) (map trim_strings normalized))"
    using row_loop_run [OF st_def [symmetric]] by blast+
  show ?thesis
    unfolding sync_normalized_def Let_def st_def [symmetric] v f by (simp add: comp_def)
qed

lemma sync_normalized_upserted:
  "upserted_rows (requests (snd (sync_normalized (\<lambda>_. None) normalized d)))
     = upserted_rows (requests d)
       @ map (\<lambda>r. payload (academic_step r))
           (filter (\<lambda>r. \<not> falsy (register_no r)) (map trim_strings normalized))"
proof -
  define keyed where "keyed = filter (\<lambda>r. \<not> falsy (register_no r)) (map trim_strings normalized)"
  obtain e d1 where del: "deleteMissingStudents (\<lambda>_. None) (map register_no keyed) d = (e, d1)"
    by (cases "deleteMissingStudents (\<lambda>_. None) (map register_no keyed) d")
  then have e: "e = None"
    using deleteMissingStudents_no_error [of "map register_no keyed" d] by simp
  have d1: "upserted_rows (requests d1) = upserted_rows (requests d)"
    using del by (auto simp add: deleteMissingStudents_ok Let_def split: if_splits)
  obtain r d2 where up: "upsertStudents (\<lambda>_. None) (map academic_step keyed) d1 = (r, d2)"
    by (cases "upsertStudents (\<lambda>_. None) (map academic_step keyed) d1")
  from upsert_loop_effect [where ss = "map academic_step keyed" and i = 0 and n = 0 and d = d1] up
  have r: "r = Inr (length keyed)"
    and d2: "upserted_rows (requests d2) = upserted_rows (requests d1) @ map payload (map academic_step keyed)"
    by (simp_all add: upsertStudents_def)
  have "snd (sync_normalized (\<lambda>_. None) normalized d) = d2"
    unfolding sync_normalized_keyed keyed_def [symmetric] using del e up r by simp
  then show ?thesis using d1 d2 unfolding keyed_def by (simp add: comp_def)
qed

subsection \<open>The payload of a row\<close>

lemma payload_academic_step_percentage:
  "attendance_percentage (payload (academic_step r))
     = Some (if hasAcademicData r then deriveAttendance (present_today r) (leave_taken r) else Fin 0)"
proof (cases "hasAcademicData r")
  case True
  then have "academic_step r
      = r\<lparr>attendance_percentage := Some (deriveAttendance (present_today r) (leave_taken r))\<rparr>"
    by (simp add: academic_step_def hasAcademicData_def)
  then show ?thesis using True
    by (simp add: payload_def Let_def hasAcademicData_def derive_twice)
next
  case False
  then have "academic_step r
      = r\<lparr>cia_1_mark := None, cia_2_mark := None, present_today := None,
           leave_taken := None, attendance_percentage := None\<rparr>"
    by (simp add: academic_step_def hasAcademicData_def)
  then show ?thesis using False
    by (simp add: payload_def Let_def hasAcademicData_def deriveAttendance_cases)
qed

lemma payload_academic_step_group:
  "cia_1_mark (payload (academic_step r)) = (if hasAcademicData r then cia_1_mark r else None)"
  "cia_2_mark (payload (academic_step r)) = (if hasAcademicData r then cia_2_mark r else None)"
  "present_today (payload (academic_step r)) = (if hasAcademicData r then present_today r else None)"
  "leave_taken (payload (academic_step r)) = (if hasAcademicData r then leave_taken r else None)"
  by (simp_all add: payload_def academic_step_def hasAcademicData_def Let_def)

lemma payload_percentage:
  "attendance_percentage (payload s)
     = (if hasAcademicData s then Some (deriveAttendance (present_today s) (leave_taken s)) else None)"
  by (simp add: payload_def Let_def derive_twice)

lemma payload_academic_step_profile:
  "register_no (payload (academic_step r)) = register_no r"
  "name (payload (academic_step r)) = name r"
  "father_name (payload (academic_step r)) = father_name r"
  "mother_name (payload (academic_step r)) = mother_name r"
  "address (payload (academic_step r)) = address r"
  "className (payload (academic_step r)) = className r"
  "year (payload (academic_step r)) = year r"
  "department (payload (academic_step r)) = department r"
  "profile_image_url (payload (academic_step r)) = profile_image_url r"
  "email (payload (academic_step r)) = delete_if_blank (email r)"
  "phone_number (payload (academic_step r)) = delete_if_blank (phone_number r)"
  by (simp_all add: payload_def academic_step_def Let_def)

lemma delete_if_blank_trim:
  "delete_if_blank (map_option trim v) = (if falsy (map_option trim v) then None else map_option trim v)"
  by (cases v) (simp_all add: delete_if_blank_def falsy_def)

text \<open>
  The second data row of the end-to-end scenario of the spec, whatever \<open>Number\<close> is:
  its cells for the academic fields are blank, and the run sends it with the percentage 0.
\<close>

lemma scenario_header_index:
  "buildHeaderIndex [''Register No'', ''Name'', ''Present Today'', ''Leave Taken'']
     = [''register_no'' \<mapsto> 0, ''name'' \<mapsto> 1, ''present_today'' \<mapsto> 2, ''leave_taken'' \<mapsto> 3]"
proof -
  have "mapped_header ''Register No'' = ''register_no''" "mapped_header ''Name'' = ''name''"
    "mapped_header ''Present Today'' = ''present_today''"
    "mapped_header ''Leave Taken'' = ''leave_taken''"
    by code_simp+
  then show ?thesis by (simp add: buildHeaderIndex_def numeral_2_eq_2 numeral_3_eq_3)
qed

lemma scenario_blank_academic_row:
  "mapRowToStudent Number
     (buildHeaderIndex [''Register No'', ''Name'', ''Present Today'', ''Leave Taken''])
     [''S2'', ''Bob'', '''', '''']
   = blank_row\<lparr>register_no := Some ''S2'', name := Some ''Bob''\<rparr>"
  by (simp add: scenario_header_index mapRowToStudent_def getStrOrEmpty_def getNumOrNull_def
        Let_def trim_def is_ws_def)

lemma scenario_blank_academic_row_sent:
  "upserted_rows (requests (snd (syncGoogleSheet Number (\<lambda>_. None)
      [''Register No'', ''Name'', ''Present Today'', ''Leave Taken'']
      [[''S2'', ''Bob'', '''', '''']] d)))
   = upserted_rows (requests d)
     @ [blank_row\<lparr>register_no := Some ''S2'', name := Some ''Bob'',
          cia_1_mark := None, cia_2_mark := None, present_today := None, leave_taken := None,
          email := None, phone_number := None, attendance_percentage := Some (Fin 0)\<rparr>]"
  unfolding syncGoogleSheet_def Let_def
  by (simp add: scenario_blank_academic_row sync_normalized_upserted trim_strings_def falsy_def
        trim_def is_ws_def academic_step_def payload_def hasAcademicData_def delete_if_blank_def
        deriveAttendance_cases Let_def)

text \<open>
  C1. The spec: a row whose four academic fields are all null gets a payload without the
  four fields and without the percentage, and a row with one of them non-null gets all
  four and a fresh percentage. The code: every row with a key passes the loop of the run
  and then the payload function of the upsert, and these are the rows sent, in order.
  For a row whose four academic fields are all null the loop deletes the four properties,
  after which the test of the payload function finds them not null (they are
  undefined): the payload has none of the four fields but has the percentage 0, where the
  payload function applied to the row itself would have left the percentage out.
  For a row with academic data the payload has the four fields as they are and the
  percentage derived from them.
\<close>

theorem C1_blank_academic_group_still_writes_percentage:
  "upserted_rows (requests (snd (sync_normalized (\<lambda>_. None) normalized d)))
     = upserted_rows (requests d)
       @ map (\<lambda>r. payload (academic_step r))
           (filter (\<lambda>r. \<not> falsy (register_no r)) (map trim_strings normalized))
   \<and> (cia_1_mark r = Some Null \<and> cia_2_mark r = Some Null \<and> present_today r = Some Null
        \<and> leave_taken r = Some Null \<longrightarrow>
        cia_1_mark (payload (academic_step r)) = None
        \<and> cia_2_mark (payload (academic_step r)) = None
        \<and> present_today (payload (academic_step r)) = None
        \<and> leave_taken (payload (academic_step r)) = None
        \<and> attendance_percentage (payload (academic_step r)) = Some (Fin 0)
        \<and> attendance_percentage (payload r) = None)
   \<and> (hasAcademicData r \<longrightarrow>
        cia_1_mark (payload (academic_step r)) = cia_1_mark r
        \<and> cia_2_mark (payload (academic_step r)) = cia_2_mark r
        \<and> present_today (payload (academic_step r)) = present_today r
        \<and> leave_taken (payload (academic_step r)) = leave_taken r
        \<and> attendance_percentage (payload (academic_step r))
            = Some (deriveAttendance (present_today r) (leave_taken r)))"
proof (intro conjI impI)
  show "upserted_rows (requests (snd (sync_normalized (\<lambda>_. None) normalized d)))
     = upserted_rows (requests d)
       @ map (\<lambda>r. payload (academic_step r))
           (filter (\<lambda>r. \<not> falsy (register_no r)) (map trim_strings normalized))"
    by (rule sync_normalized_upserted)
next
  assume null: "cia_1_mark r = Some Null \<and> cia_2_mark r = Some Null \<and> present_today r = Some Null
        \<and> leave_taken r = Some Null"
  then have no: "\<not> hasAcademicData r" by (simp add: hasAcademicData_def)
  then show "cia_1_mark (payload (academic_step r)) = None"
    and "cia_2_mark (payload (academic_step r)) = None"
    and "present_today (payload (academic_step r)) = None"
    and "leave_taken (payload (academic_step r)) = None"
    by (simp_all add: payload_academic_step_group)
  from no show "attendance_percentage (payload (academic_step r)) = Some (Fin 0)"
    by (simp add: payload_academic_step_percentage)
  from no show "attendance_percentage (payload r) = None"
    by (simp add: payload_percentage)
next
  assume has: "hasAcademicData r"
  then show "cia_1_mark (payload (academic_step r)) = cia_1_mark r"
    and "cia_2_mark (payload (academic_step r)) = cia_2_mark r"
    and "present_today (payload (academic_step r)) = present_today r"
    and "leave_taken (payload (academic_step r)) = leave_taken r"
    by (simp_all add: payload_academic_step_group)
  from has show "attendance_percentage (payload (academic_step r))
            = Some (deriveAttendance (present_today r) (leave_taken r))"
    by (simp add: payload_academic_step_percentage)
qed

text \<open>
  The theorem at a row for S2 with all four academic fields null, run against a store
  that holds S2 with 18 present, 2 leave and the percentage 90: the payload sent carries
  the percentage 0 and the stored percentage becomes 0, the stored counts staying.
\<close>

theorem C1_blank_row_run_witness:
  "upserted_rows (requests (snd (sync_normalized (\<lambda>_. None)
       [blank_row\<lparr>register_no := Some ''S2'', name := Some ''Bob''\<rparr>]
       \<lparr>students = [blank_row\<lparr>register_no := Some ''S2'', name := Some ''Bob'',
                       present_today := Some (Num 18), leave_taken := Some (Num 2),
                       attendance_percentage := Some (Fin 90)\<rparr>],
         requests = []\<rparr>)))
     = [blank_row\<lparr>register_no := Some ''S2'', name := Some ''Bob'',
          cia_1_mark := None, cia_2_mark := None, present_today := None, leave_taken := None,
          email := None, phone_number := None, attendance_percentage := Some (Fin 0)\<rparr>]
   \<and> students (snd (sync_normalized (\<lambda>_. None)
       [blank_row\<lparr>register_no := Some ''S2'', name := Some ''Bob''\<rparr>]
       \<lparr>students = [blank_row\<lparr>register_no := Some ''S2'', name := Some ''Bob'',
                       present_today := Some (Num 18), leave_taken := Some (Num 2),
                       attendance_percentage := Some (Fin 90)\<rparr>],
         requests = []\<rparr>))
     = [blank_row\<lparr>register_no := Some ''S2'', name := Some ''Bob'',
          present_today := Some (Num 18), leave_taken := Some (Num 2),
          attendance_percentage := Some (Fin 0)\<rparr>]"
  using C1_blank_academic_group_still_writes_percentage
    [of "[blank_row\<lparr>register_no := Some ''S2'', name := Some ''Bob''\<rparr>]"
       "\<lparr>students = [blank_row\<lparr>register_no := Some ''S2'', name := Some ''Bob'',
                       present_today := Some (Num 18), leave_taken := Some (Num 2),
                       attendance_percentage := Some (Fin 90)\<rparr>],
         requests = []\<rparr>" "blank_row\<lparr>register_no := Some ''S2'', name := Some ''Bob''\<rparr>"]
  by (simp add: sync_normalized_keyed deleteMissingStudents_ok upsertStudents_def
        upsert_loop.simps db_request_ok Let_def trim_strings_def falsy_def trim_def is_ws_def
        key_string_def academic_step_def payload_def hasAcademicData_def delete_if_blank_def
        deriveAttendance_cases merge_payload_def listed_def)

text \<open>
  C3, as amended. Only the contact fields are omitted when blank: a blank email or phone
  number is left out of the payload, so the stored value stays, and a non-blank one is
  written trimmed. The other profile fields (name, father_name, mother_name, address,
  class, year, department, profile_image_url) are always in the payload with the trimmed
  value of the row; a blank one is written as the empty string and replaces the stored
  value.
\<close>

theorem C3_only_blank_contact_fields_omitted:
  "(let row = trim_strings r; p = payload (academic_step row)
    in email p = (if falsy (email row) then None else email row)
     \<and> phone_number p = (if falsy (phone_number row) then None else phone_number row)
     \<and> (falsy (email row) \<longrightarrow> email (merge_payload stored p) = email stored)
     \<and> (falsy (phone_number row) \<longrightarrow> phone_number (merge_payload stored p) = phone_number stored)
     \<and> name p = name row \<and> father_name p = father_name row \<and> mother_name p = mother_name row
     \<and> address p = address row \<and> className p = className row \<and> year p = year row
     \<and> department p = department row \<and> profile_image_url p = profile_image_url row
     \<and> (name row = Some [] \<longrightarrow> name (merge_payload stored p) = Some [])
     \<and> (father_name row = Some [] \<longrightarrow> father_name (merge_payload stored p) = Some [])
     \<and> (mother_name row = Some [] \<longrightarrow> mother_name (merge_payload stored p) = Some [])
     \<and> (address row = Some [] \<longrightarrow> address (merge_payload stored p) = Some [])
     \<and> (className row = Some [] \<longrightarrow> className (merge_payload stored p) = Some [])
     \<and> (year row = Some [] \<longrightarrow> year (merge_payload stored p) = Some [])
     \<and> (department row = Some [] \<longrightarrow> department (merge_payload stored p) = Some []))"
proof -
  have e: "delete_if_blank (email (trim_strings r))
        = (if falsy (email (trim_strings r)) then None else email (trim_strings r))"
    by (simp add: trim_strings_def delete_if_blank_trim)
  have ph: "delete_if_blank (phone_number (trim_strings r))
        = (if falsy (phone_number (trim_strings r)) then None else phone_number (trim_strings r))"
    by (simp add: trim_strings_def delete_if_blank_trim)
  show ?thesis
    unfolding Let_def
    by (simp add: e ph payload_academic_step_profile merge_payload_def listed_def)
qed

text \<open>
  The theorem at a row with a blank email, the phone number 123 between spaces and a
  blank address, against stored rows with an email and with an address.
\<close>

theorem C3_contact_fields_witness:
  "email (payload (academic_step (trim_strings
       (blank_row\<lparr>register_no := Some ''S1'', email := Some ''  '', phone_number := Some '' 123 ''\<rparr>))))
     = None
   \<and> phone_number (payload (academic_step (trim_strings
       (blank_row\<lparr>register_no := Some ''S1'', email := Some ''  '', phone_number := Some '' 123 ''\<rparr>))))
     = Some ''123''
   \<and> email (merge_payload (blank_row\<lparr>register_no := Some ''S1'', email := Some ''a@b.c''\<rparr>)
       (payload (academic_step (trim_strings
         (blank_row\<lparr>register_no := Some ''S1'', email := Some ''  '', phone_number := Some '' 123 ''\<rparr>)))))
     = Some ''a@b.c''
   \<and> address (merge_payload (blank_row\<lparr>register_no := Some ''S1'', address := Some ''Home''\<rparr>)
       (payload (academic_step (trim_strings
         (blank_row\<lparr>register_no := Some ''S1'', email := Some ''  '', phone_number := Some '' 123 ''\<rparr>)))))
     = Some []"
  using C3_only_blank_contact_fields_omitted
    [of "blank_row\<lparr>register_no := Some ''S1'', email := Some ''  '', phone_number := Some '' 123 ''\<rparr>"
               "blank_row\<lparr>register_no := Some ''S1'', email := Some ''a@b.c''\<rparr>"]
        C3_only_blank_contact_fields_omitted
    [of "blank_row\<lparr>register_no := Some ''S1'', email := Some ''  '', phone_number := Some '' 123 ''\<rparr>"
               "blank_row\<lparr>register_no := Some ''S1'', address := Some ''Home''\<rparr>"]
  by (simp add: Let_def trim_strings_def falsy_def trim_def is_ws_def)

text \<open>
  C3 as stated fails: the row for S1 has a blank name, its payload holds the name as the
  empty string instead of leaving it out, and the stored name Alice is replaced by it.
\<close>

theorem C3_blank_name_written_counterexample:
  "name (blank_row\<lparr>register_no := Some ''S1''\<rparr>) = Some []
   \<and> name (payload (academic_step (trim_strings (blank_row\<lparr>register_no := Some ''S1''\<rparr>)))) = Some []
   \<and> name (payload (academic_step (trim_strings (blank_row\<lparr>register_no := Some ''S1''\<rparr>)))) \<noteq> None
   \<and> name (merge_payload (blank_row\<lparr>register_no := Some ''S1'', name := Some ''Alice''\<rparr>)
       (payload (academic_step (trim_strings (blank_row\<lparr>register_no := Some ''S1''\<rparr>)))))
     = Some []"
  by (simp add: payload_academic_step_profile trim_strings_def merge_payload_def listed_def)

subsection \<open>The percentage of a row\<close>

text \<open>
  C4, as amended. The academic group is supplied as soon as one of the four fields is
  not null, and then the payload carries the percentage derived from the row, also when
  present_today or leave_taken is null: a null input counts as 0. The percentage is 0
  when the sum is not positive and when the sum overflows. Otherwise it is
  \<open>Math.round(present / (present + leave) * 100 * 100) / 100\<close> in double arithmetic:
  for non-negative inputs whose sum is a normal double below \<open>2 ^ 1023\<close>, it is the
  double nearest to \<open>n / 100\<close> for an integer \<open>n\<close> from 0 to 10000 that lies within
  \<open>1 / 2 + 1 / 2 ^ 37\<close> of the exact 10000 * present / (present + leave), so that
  it lies within \<open>1 / 200 + 1 / 2 ^ 43\<close> of the exact percentage. 18 and 2 give 90,
  0 and 0 give 0, and 23 and 137 give the double nearest to 14.37.
\<close>

theorem C4_percentage_in_double_arithmetic:
  "(hasAcademicData r \<longrightarrow>
      attendance_percentage (payload (academic_step r))
        = Some (deriveAttendance (present_today r) (leave_taken r)))
   \<and> deriveAttendance p l = deriveAttendance (Some (Num (or_zero p))) (Some (Num (or_zero l)))
   \<and> (or_zero p + or_zero l \<le> 0 \<longrightarrow> deriveAttendance p l = Fin 0)
   \<and> (add_double (or_zero p) (or_zero l) = PosInf \<longrightarrow> deriveAttendance p l = Fin 0)
   \<and> (is_double a \<and> 0 \<le> a \<and> 0 \<le> b \<and> 2 powi (- 1022) \<le> a + b \<and> a + b < 2 ^ 1023 \<longrightarrow>
        (\<exists>n y. deriveAttendance (Some (Num a)) (Some (Num b)) = Fin y
           \<and> round_double (of_int n / 100) = Fin y
           \<and> 0 \<le> n \<and> n \<le> 10000
           \<and> \<bar>of_int n - 10000 * (a / (a + b))\<bar> \<le> 1 / 2 + 1 / 2 ^ 37
           \<and> \<bar>y - 100 * (a / (a + b))\<bar> \<le> 1 / 200 + 1 / 2 ^ 43))
   \<and> deriveAttendance (Some (Num 18)) (Some (Num 2)) = Fin 90
   \<and> deriveAttendance (Some (Num 0)) (Some (Num 0)) = Fin 0
   \<and> deriveAttendance (Some (Num 23)) (Some (Num 137)) = round_double (1437 / 100)"
proof (intro conjI impI)
  assume "hasAcademicData r"
  then show "attendance_percentage (payload (academic_step r))
          = Some (deriveAttendance (present_today r) (leave_taken r))"
    by (simp add: payload_academic_step_percentage)
next
  show "deriveAttendance p l = deriveAttendance (Some (Num (or_zero p))) (Some (Num (or_zero l)))"
    by (rule derive_twice [symmetric])
next
  assume "or_zero p + or_zero l \<le> 0"
  then show "deriveAttendance p l = Fin 0" by (rule deriveAttendance_nonpos)
next
  assume "add_double (or_zero p) (or_zero l) = PosInf"
  then show "deriveAttendance p l = Fin 0"
    by (simp add: deriveAttendance_cases add_double_def)
next
  assume "is_double a \<and> 0 \<le> a \<and> 0 \<le> b \<and> 2 powi (- 1022) \<le> a + b \<and> a + b < 2 ^ 1023"
  then show "\<exists>n y. deriveAttendance (Some (Num a)) (Some (Num b)) = Fin y
           \<and> round_double (of_int n / 100) = Fin y
           \<and> 0 \<le> n \<and> n \<le> 10000
           \<and> \<bar>of_int n - 10000 * (a / (a + b))\<bar> \<le> 1 / 2 + 1 / 2 ^ 37
           \<and> \<bar>y - 100 * (a / (a + b))\<bar> \<le> 1 / 200 + 1 / 2 ^ 43"
    by (intro deriveAttendance_accuracy) simp_all
next
  show "deriveAttendance (Some (Num 18)) (Some (Num 2)) = Fin 90"
    by (rule deriveAttendance_examples)
  show "deriveAttendance (Some (Num 0)) (Some (Num 0)) = Fin 0"
    by (rule deriveAttendance_examples)
  show "deriveAttendance (Some (Num 23)) (Some (Num 137)) = round_double (1437 / 100)"
    by (simp add: deriveAttendance_examples double_1437_100)
qed

text \<open>
  The theorem at a row with 1 present and 2 leave, whose percentage is the double nearest
  to 33.33; at a null present_today and -3 leave; and at twice \<open>2 ^ 1023\<close>, where the
  sum overflows.
\<close>

theorem C4_percentage_witness:
  "attendance_percentage
     (payload (academic_step (blank_row\<lparr>register_no := Some ''S1'', present_today := Some (Num 1),
                                         leave_taken := Some (Num 2)\<rparr>)))
     = Some (Fin (2345390243441541 / 70368744177664))
   \<and> round_double (3333 / 100) = Fin (2345390243441541 / 70368744177664)
   \<and> (\<exists>n y. deriveAttendance (Some (Num 1)) (Some (Num 2)) = Fin y
           \<and> round_double (of_int n / 100) = Fin y
           \<and> 0 \<le> n \<and> n \<le> 10000
           \<and> \<bar>of_int n - 10000 * (1 / (1 + 2) :: rat)\<bar> \<le> 1 / 2 + 1 / 2 ^ 37
           \<and> \<bar>y - 100 * (1 / (1 + 2))\<bar> \<le> 1 / 200 + 1 / 2 ^ 43)
   \<and> deriveAttendance (Some Null) (Some (Num (- 3))) = Fin 0
   \<and> add_double (2 ^ 1023) (2 ^ 1023) = PosInf
   \<and> deriveAttendance (Some (Num (2 ^ 1023))) (Some (Num (2 ^ 1023))) = Fin 0"
  using C4_percentage_in_double_arithmetic
    [where r = "blank_row\<lparr>register_no := Some ''S1'', present_today := Some (Num 1),
                          leave_taken := Some (Num 2)\<rparr>"
       and p = "Some Null" and l = "Some (Num (- 3))" and a = 1 and b = 2]
    C4_percentage_in_double_arithmetic
    [where p = "Some (Num (2 ^ 1023))" and l = "Some (Num (2 ^ 1023))"]
    round_double_overflow [of "2 ^ 1023 + 2 ^ 1023"]
  by (simp add: hasAcademicData_def deriveAttendance_examples deriveAttendance_nonpos
        double_3333_100 add_double_def)

text \<open>
  C4 as stated fails twice. The row for S1 has 18 present and a null leave_taken, and its
  payload carries the percentage 100. And 23 present with 137 leave is 14.375 exactly,
  which rounded to two decimal places is 14.38, but the product computed in doubles lies
  below 1437.5 and the percentage is the double nearest to 14.37.
\<close>

theorem C4_null_leave_and_double_rounding_counterexample:
  "leave_taken (blank_row\<lparr>register_no := Some ''S1'', present_today := Some (Num 18)\<rparr>) = Some Null
   \<and> attendance_percentage
       (payload (academic_step (trim_strings
          (blank_row\<lparr>register_no := Some ''S1'', present_today := Some (Num 18)\<rparr>))))
     = Some (Fin 100)
   \<and> (23 / (23 + 137) * 100 :: rat) = 14375 / 1000
   \<and> (of_int \<lfloor>(23 / (23 + 137) * 100 :: rat) * 100 + 1 / 2\<rfloor> :: rat) / 100 = 1438 / 100
   \<and> deriveAttendance (Some (Num 23)) (Some (Num 137)) = round_double (1437 / 100)
   \<and> deriveAttendance (Some (Num 23)) (Some (Num 137)) \<noteq> round_double (1438 / 100)"
  by (simp add: payload_academic_step_percentage hasAcademicData_def trim_strings_def
        deriveAttendance_examples double_1437_100 double_1438_100)

text \<open>Every finite value of a non-blank cell reaches the row, a negative one too.\<close>

lemma getNumOrNull_finite:
  "headerIndex key = Some idx \<Longrightarrow> idx < length row \<Longrightarrow> trim (row ! idx) \<noteq> [] \<Longrightarrow>
   Number (trim (row ! idx)) = Some n \<Longrightarrow> getNumOrNull Number headerIndex row key = Num n"
  by (simp add: getNumOrNull_def)

text \<open>
  C5, as amended. When present_today is a double (as every value that \<open>Number\<close> returns
  is) and either the sum of present_today and leave_taken is not positive or neither of
  them is negative (null counting as 0), the derived percentage is a finite number
  between 0 and 100, and so is the percentage in the payload of such a row.
\<close>

theorem C5_percentage_between_0_and_100:
  "(is_double (or_zero p)
      \<and> (or_zero p + or_zero l \<le> 0 \<or> 0 \<le> or_zero p \<and> 0 \<le> or_zero l) \<longrightarrow>
      (\<exists>y. deriveAttendance p l = Fin y \<and> 0 \<le> y \<and> y \<le> 100))
   \<and> (is_double (or_zero (present_today r))
      \<and> (or_zero (present_today r) + or_zero (leave_taken r) \<le> 0
          \<or> 0 \<le> or_zero (present_today r) \<and> 0 \<le> or_zero (leave_taken r)) \<longrightarrow>
      (\<exists>y. attendance_percentage (payload (academic_step r)) = Some (Fin y)
           \<and> 0 \<le> y \<and> y \<le> 100))"
proof (intro conjI impI)
  assume "is_double (or_zero p)
      \<and> (or_zero p + or_zero l \<le> 0 \<or> 0 \<le> or_zero p \<and> 0 \<le> or_zero l)"
  then show "\<exists>y. deriveAttendance p l = Fin y \<and> 0 \<le> y \<and> y \<le> 100"
    by (intro deriveAttendance_range) simp_all
next
  assume a: "is_double (or_zero (present_today r))
      \<and> (or_zero (present_today r) + or_zero (leave_taken r) \<le> 0
          \<or> 0 \<le> or_zero (present_today r) \<and> 0 \<le> or_zero (leave_taken r))"
  show "\<exists>y. attendance_percentage (payload (academic_step r)) = Some (Fin y) \<and> 0 \<le> y \<and> y \<le> 100"
  proof (cases "hasAcademicData r")
    case True
    from a have "\<exists>y. deriveAttendance (present_today r) (leave_taken r) = Fin y \<and> 0 \<le> y \<and> y \<le> 100"
      by (intro deriveAttendance_range) simp_all
    then show ?thesis using True by (simp add: payload_academic_step_percentage)
  next
    case False
    then show ?thesis by (simp add: payload_academic_step_percentage)
  qed
qed

text \<open>
  The theorem at 1 present and 2 leave, where the percentage is the double nearest to
  33.33, and at -3 present and -5 leave, where it is 0.
\<close>

theorem C5_percentage_range_witness:
  "(\<exists>y. deriveAttendance (Some (Num 1)) (Some (Num 2)) = Fin y \<and> 0 \<le> y \<and> y \<le> 100)
   \<and> deriveAttendance (Some (Num 1)) (Some (Num 2)) = Fin (2345390243441541 / 70368744177664)
   \<and> (\<exists>y. attendance_percentage
         (payload (academic_step (blank_row\<lparr>register_no := Some ''S1'',
            present_today := Some (Num (- 3)), leave_taken := Some (Num (- 5))\<rparr>)))
         = Some (Fin y) \<and> 0 \<le> y \<and> y \<le> 100)
   \<and> attendance_percentage
         (payload (academic_step (blank_row\<lparr>register_no := Some ''S1'',
            present_today := Some (Num (- 3)), leave_taken := Some (Num (- 5))\<rparr>)))
         = Some (Fin 0)"
  using C5_percentage_between_0_and_100
    [where p = "Some (Num 1)" and l = "Some (Num 2)"
       and r = "blank_row\<lparr>register_no := Some ''S1'',
            present_today := Some (Num (- 3)), leave_taken := Some (Num (- 5))\<rparr>"]
    is_double_of_int [of "- 3"]
  by (simp add: deriveAttendance_examples payload_academic_step_percentage hasAcademicData_def
        deriveAttendance_nonpos)

text \<open>
  C5 as stated fails: 10 present and -5 leave, both finite, give the percentage 200,
  which the payload of such a row carries.
\<close>

theorem C5_negative_leave_counterexample:
  "deriveAttendance (Some (Num 10)) (Some (Num (- 5))) = Fin 200
   \<and> \<not> (\<exists>y. deriveAttendance (Some (Num 10)) (Some (Num (- 5))) = Fin y \<and> 0 \<le> y \<and> y \<le> 100)
   \<and> attendance_percentage
       (payload (academic_step (trim_strings
          (blank_row\<lparr>register_no := Some ''S1'', present_today := Some (Num 10),
                      leave_taken := Some (Num (- 5))\<rparr>))))
     = Some (Fin 200)"
  by (simp add: payload_academic_step_percentage hasAcademicData_def trim_strings_def
        deriveAttendance_examples)

section \<open>Properties of the rows of a run\<close>

lemma register_no_payload [simp]: "register_no (payload s) = register_no s"
  by (simp add: payload_def Let_def)

lemma sync_normalized_students:
  "students (snd (sync_normalized (\<lambda>_. None) normalized d))
     = fold upsert_row
         (map (\<lambda>r. payload (academic_step r))
            (filter (\<lambda>r. \<not> falsy (register_no r)) (map trim_strings normalized)))
         (students (snd (deleteMissingStudents (\<lambda>_. None)
            (map register_no (filter (\<lambda>r. \<not> falsy (register_no r)) (map trim_strings normalized)))
            d)))"
proof -
  define keyed where "keyed = filter (\<lambda>r. \<not> falsy (register_no r)) (map trim_strings normalized)"
  obtain e d1 where del: "deleteMissingStudents (\<lambda>_. None) (map register_no keyed) d = (e, d1)"
    by (cases "deleteMissingStudents (\<lambda>_. None) (map register_no keyed) d")
  then have e: "e = None"
    using deleteMissingStudents_no_error [of "map register_no keyed" d] by simp
  obtain r d2 where up: "upsertStudents (\<lambda>_. None) (map academic_step keyed) d1 = (r, d2)"
    by (cases "upsertStudents (\<lambda>_. None) (map academic_step keyed) d1")
  from upsert_loop_effect [where ss = "map academic_step keyed" and i = 0 and n = 0 and d = d1] up
  have r: "r = Inr (length keyed)"
    and d2: "students d2 = fold upsert_row (map payload (map academic_step keyed)) (students d1)"
    by (simp_all add: upsertStudents_def)
  have "snd (sync_normalized (\<lambda>_. None) normalized d) = d2"
    unfolding sync_normalized_keyed keyed_def [symmetric] using del e up r by simp
  then show ?thesis using d2 del unfolding keyed_def by (simp add: comp_def)
qed

text \<open>
  C8. Every row is trimmed and validated; a missing name or department only adds a
  warning, and the row still reaches \<open>validRows\<close>, the list that is upserted. A row
  without key is recorded in \<open>failedRows\<close> and reaches neither \<open>validRows\<close> nor the
  keys handed to the deleter, which are the keys of \<open>validRows\<close>. The run goes on after
  such a row: the deletion and the upsert work on the rows with a key, and when no
  request to the store fails the summary counts the rows, the rows with a key as
  processed and the rows without as failed. The rows that such a run sends to the store
  in its upsert requests are the payloads of the rows with a key, in order, and the
  store upserts them one by one after the deletion; so the payload of a row with a key
  is sent whatever its name and department, and the payload of a row without key is not
  among the payloads sent.
\<close>

theorem C8_missing_key_excluded_other_fields_warned:
  "(let st = row_loop normalized 0 \<lparr>failedRows = [], validRows = [], warnings = []\<rparr>;
        keyed = filter (\<lambda>r. \<not> falsy (register_no r)) (map trim_strings normalized)
    in validRows st = map academic_step keyed
     \<and> map register_no (validRows st) = map register_no keyed
     \<and> length (failedRows st) = length normalized - length keyed
     \<and> (\<forall>i<length normalized.
          let row = trim_strings (normalized ! i)
          in if falsy (register_no row)
             then (i + 2, ''register_no missing'') \<in> set (failedRows st)
                  \<and> academic_step row \<notin> set (validRows st)
                  \<and> register_no row \<notin> set (map register_no (validRows st))
             else academic_step row \<in> set (validRows st)
                  \<and> (falsy (name row) \<or> falsy (department row) \<longrightarrow>
                        validateStudent row \<noteq> []
                        \<and> (i + 2, validateStudent row) \<in> set (warnings st)))
     \<and> sync_normalized faults normalized d =
         (case deleteMissingStudents faults (map register_no keyed) d of
            (Some e, d') \<Rightarrow> (Inl e, d')
          | (None, d') \<Rightarrow>
              (case upsertStudents faults (map academic_step keyed) d' of
                 (Inl e, d'') \<Rightarrow> (Inl e, d'')
               | (Inr n, d'') \<Rightarrow>
                   (Inr \<lparr>total_rows = length normalized, processed_rows = n,
                         failed_rows = length normalized - length keyed\<rparr>, d'')))
     \<and> fst (sync_normalized (\<lambda>_. None) normalized d)
         = Inr \<lparr>total_rows = length normalized, processed_rows = length keyed,
                failed_rows = length normalized - length keyed\<rparr>
     \<and> upserted_rows (requests (snd (sync_normalized (\<lambda>_. None) normalized d)))
         = upserted_rows (requests d) @ map (\<lambda>r. payload (academic_step r)) keyed
     \<and> students (snd (sync_normalized (\<lambda>_. None) normalized d))
         = fold upsert_row (map (\<lambda>r. payload (academic_step r)) keyed)
             (students (snd (deleteMissingStudents (\<lambda>_. None) (map register_no keyed) d)))
     \<and> (\<forall>i<length normalized.
          let row = trim_strings (normalized ! i)
          in if falsy (register_no row)
             then payload (academic_step row)
                    \<notin> set (map (\<lambda>r. payload (academic_step r)) keyed)
             else payload (academic_step row)
                    \<in> set (upserted_rows
                             (requests (snd (sync_normalized (\<lambda>_. None) normalized d))))))"
proof -
  define st where "st = row_loop normalized 0 \<lparr>failedRows = [], validRows = [], warnings = []\<rparr>"
  define keyed where "keyed = filter (\<lambda>r. \<not> falsy (register_no r)) (map trim_strings normalized)"
  have v: "validRows st = map academic_step keyed"
    and f: "length (failedRows st) = length normalized - length keyed"
    unfolding keyed_def using row_loop_run [OF st_def [symmetric]] by blast+
  have k: "map register_no (validRows st) = map register_no keyed"
    by (simp add: v)
  have fr: "failedRows st = map (\<lambda>(i, r). (i + 2, ''register_no missing''))
         (filter (\<lambda>(i, r). falsy (register_no (trim_strings r))) (enumerate 0 normalized))"
    unfolding st_def by (simp add: row_loop_failedRows)
  have wr: "warnings st = map (\<lambda>(i, r). (i + 2, validateStudent (trim_strings r)))
         (filter (\<lambda>(i, r). validateStudent (trim_strings r) \<noteq> []) (enumerate 0 normalized))"
    unfolding st_def by (simp add: row_loop_warnings)
  have rows: "if falsy (register_no (trim_strings (normalized ! i)))
             then (i + 2, ''register_no missing'') \<in> set (failedRows st)
                  \<and> academic_step (trim_strings (normalized ! i)) \<notin> set (validRows st)
                  \<and> register_no (trim_strings (normalized ! i)) \<notin> set (map register_no (validRows st))
             else academic_step (trim_strings (normalized ! i)) \<in> set (validRows st)
                  \<and> (falsy (name (trim_strings (normalized ! i)))
                       \<or> falsy (department (trim_strings (normalized ! i))) \<longrightarrow>
                        validateStudent (trim_strings (normalized ! i)) \<noteq> []
                        \<and> (i + 2, validateStudent (trim_strings (normalized ! i))) \<in> set (warnings st))"
    if i: "i < length normalized" for i
  proof (cases "falsy (register_no (trim_strings (normalized ! i)))")
    case True
    have "(i + 2, ''register_no missing'') \<in> set (failedRows st)"
      unfolding fr using enumerate_nth_mem [OF i] True by force
    moreover have "register_no (trim_strings (normalized ! i)) \<notin> set (map register_no (validRows st))"
      unfolding k keyed_def using True by auto
    moreover from this have "academic_step (trim_strings (normalized ! i)) \<notin> set (validRows st)"
      by (metis image_eqI list.set_map register_no_academic_step)
    ultimately show ?thesis using True by simp
  next
    case False
    have "trim_strings (normalized ! i) \<in> set keyed"
      unfolding keyed_def using False i by simp
    then have a: "academic_step (trim_strings (normalized ! i)) \<in> set (validRows st)"
      unfolding v by simp
    have b: "validateStudent (trim_strings (normalized ! i)) \<noteq> []
             \<and> (i + 2, validateStudent (trim_strings (normalized ! i))) \<in> set (warnings st)"
      if "falsy (name (trim_strings (normalized ! i))) \<or> falsy (department (trim_strings (normalized ! i)))"
    proof -
      from that have ne: "validateStudent (trim_strings (normalized ! i)) \<noteq> []"
        by (auto simp: validateStudent_def)
      then show ?thesis unfolding wr using enumerate_nth_mem [OF i] by force
    qed
    from a b False show ?thesis by simp
  qed
  have sync: "sync_normalized faults normalized d =
         (case deleteMissingStudents faults (map register_no keyed) d of
            (Some e, d') \<Rightarrow> (Inl e, d')
          | (None, d') \<Rightarrow>
              (case upsertStudents faults (map academic_step keyed) d' of
                 (Inl e, d'') \<Rightarrow> (Inl e, d'')
               | (Inr n, d'') \<Rightarrow>
                   (Inr \<lparr>total_rows = length normalized, processed_rows = n,
                         failed_rows = length normalized - length keyed\<rparr>, d'')))" for faults
    unfolding sync_normalized_def Let_def st_def [symmetric] v f by (simp add: comp_def)
  have ok: "fst (sync_normalized (\<lambda>_. None) normalized d)
         = Inr \<lparr>total_rows = length normalized, processed_rows = length keyed,
                failed_rows = length normalized - length keyed\<rparr>"
  proof -
    obtain e d1 where del: "deleteMissingStudents (\<lambda>_. None) (map register_no keyed) d = (e, d1)"
      by (cases "deleteMissingStudents (\<lambda>_. None) (map register_no keyed) d")
    then have e: "e = None" using deleteMissingStudents_no_error [of "map register_no keyed" d] by simp
    obtain r d2 where up: "upsertStudents (\<lambda>_. None) (map academic_step keyed) d1 = (r, d2)"
      by (cases "upsertStudents (\<lambda>_. None) (map academic_step keyed) d1")
    then have r: "r = Inr (length keyed)"
      using upsert_loop_ok [of "map academic_step keyed" 0 0 d1] by (simp add: upsertStudents_def)
    show ?thesis using del e up r by (simp add: sync)
  qed
  have sent: "upserted_rows (requests (snd (sync_normalized (\<lambda>_. None) normalized d)))
         = upserted_rows (requests d) @ map (\<lambda>r. payload (academic_step r)) keyed"
    unfolding keyed_def by (rule sync_normalized_upserted)
  have stored: "students (snd (sync_normalized (\<lambda>_. None) normalized d))
         = fold upsert_row (map (\<lambda>r. payload (academic_step r)) keyed)
             (students (snd (deleteMissingStudents (\<lambda>_. None) (map register_no keyed) d)))"
    unfolding keyed_def by (rule sync_normalized_students)
  have rows_sent: "if falsy (register_no (trim_strings (normalized ! i)))
             then payload (academic_step (trim_strings (normalized ! i)))
                    \<notin> set (map (\<lambda>r. payload (academic_step r)) keyed)
             else payload (academic_step (trim_strings (normalized ! i)))
                    \<in> set (upserted_rows
                             (requests (snd (sync_normalized (\<lambda>_. None) normalized d))))"
    if i: "i < length normalized" for i
  proof (cases "falsy (register_no (trim_strings (normalized ! i)))")
    case True
    have "payload (academic_step (trim_strings (normalized ! i)))
            \<notin> set (map (\<lambda>r. payload (academic_step r)) keyed)"
    proof
      assume "payload (academic_step (trim_strings (normalized ! i)))
            \<in> set (map (\<lambda>r. payload (academic_step r)) keyed)"
      then obtain r where r: "r \<in> set keyed"
        and eq: "payload (academic_step (trim_strings (normalized ! i))) = payload (academic_step r)"
        by auto
      from eq have "register_no (payload (academic_step (trim_strings (normalized ! i))))
          = register_no (payload (academic_step r))" by simp
      then have "register_no (trim_strings (normalized ! i)) = register_no r" by simp
      moreover have "\<not> falsy (register_no r)" using r unfolding keyed_def by simp
      ultimately show False using True by simp
    qed
    then show ?thesis using True by simp
  next
    case False
    have "trim_strings (normalized ! i) \<in> set keyed"
      unfolding keyed_def using False i by simp
    then have "payload (academic_step (trim_strings (normalized ! i)))
        \<in> set (map (\<lambda>r. payload (academic_step r)) keyed)" by simp
    then show ?thesis using False unfolding sent by simp
  qed
  show ?thesis
    unfolding Let_def st_def [symmetric] keyed_def [symmetric]
    using v k f rows sync ok sent stored rows_sent by blast
qed

text \<open>
  The theorem at two rows: the first has a key but neither name nor department, the
  second has a name but no key. The run sends the payload of the first row only, which
  the empty store inserts.
\<close>

theorem C8_row_loop_witness:
  "row_loop [blank_row\<lparr>register_no := Some ''S1''\<rparr>, blank_row\<lparr>name := Some ''Bob''\<rparr>] 0
       \<lparr>failedRows = [], validRows = [], warnings = []\<rparr>
     = \<lparr>failedRows = [(3, ''register_no missing'')],
        validRows = [blank_row\<lparr>register_no := Some ''S1'', cia_1_mark := None, cia_2_mark := None,
                                present_today := None, leave_taken := None\<rparr>],
        warnings = [(2, [''name missing'', ''department missing'']),
                    (3, [''register_no missing'', ''department missing''])]\<rparr>
   \<and> fst (sync_normalized (\<lambda>_. None)
          [blank_row\<lparr>register_no := Some ''S1''\<rparr>, blank_row\<lparr>name := Some ''Bob''\<rparr>]
          \<lparr>students = [], requests = []\<rparr>)
     = Inr \<lparr>total_rows = 2, processed_rows = 1, failed_rows = 1\<rparr>
   \<and> upserted_rows (requests (snd (sync_normalized (\<lambda>_. None)
          [blank_row\<lparr>register_no := Some ''S1''\<rparr>, blank_row\<lparr>name := Some ''Bob''\<rparr>]
          \<lparr>students = [], requests = []\<rparr>)))
     = [blank_row\<lparr>register_no := Some ''S1'', cia_1_mark := None, cia_2_mark := None,
                   present_today := None, leave_taken := None, email := None,
                   phone_number := None, attendance_percentage := Some (Fin 0)\<rparr>]
   \<and> students (snd (sync_normalized (\<lambda>_. None)
          [blank_row\<lparr>register_no := Some ''S1''\<rparr>, blank_row\<lparr>name := Some ''Bob''\<rparr>]
          \<lparr>students = [], requests = []\<rparr>))
     = [blank_row\<lparr>register_no := Some ''S1'', cia_1_mark := None, cia_2_mark := None,
                   present_today := None, leave_taken := None, email := None,
                   phone_number := None, attendance_percentage := Some (Fin 0)\<rparr>]"
  using C8_missing_key_excluded_other_fields_warned [of "[blank_row\<lparr>register_no := Some ''S1''\<rparr>, blank_row\<lparr>name := Some ''Bob''\<rparr>]"
               "\<lambda>_. Some ''down''" "\<lparr>students = [], requests = []\<rparr>"]
  by (simp add: Let_def trim_strings_def falsy_def trim_def is_ws_def validateStudent_def
        academic_step_def payload_def hasAcademicData_def delete_if_blank_def
        deriveAttendance_examples deleteMissingStudents_ok db_request_ok key_string_def)

section \<open>Properties of the header index\<close>

lemma buildHeaderIndex_snoc:
  "buildHeaderIndex (hs @ [h]) = (buildHeaderIndex hs)(mapped_header h \<mapsto> length hs)"
  by (simp add: buildHeaderIndex_def enumerate_append_eq)

lemma buildHeaderIndex_last_wins:
  "buildHeaderIndex hs k = Some i \<longleftrightarrow>
     i < length hs \<and> mapped_header (hs ! i) = k
     \<and> (\<forall>j. i < j \<and> j < length hs \<longrightarrow> mapped_header (hs ! j) \<noteq> k)"
proof (induction hs arbitrary: i rule: rev_induct)
  case Nil
  then show ?case by (simp add: buildHeaderIndex_def)
next
  case (snoc h hs)
  show ?case
  proof (cases "mapped_header h = k")
    case True
    have "(i < Suc (length hs) \<and> mapped_header ((hs @ [h]) ! i) = k
     \<and> (\<forall>j. i < j \<and> j < Suc (length hs) \<longrightarrow> mapped_header ((hs @ [h]) ! j) \<noteq> k)) \<longleftrightarrow> i = length hs"
    proof
      assume r: "i < Suc (length hs) \<and> mapped_header ((hs @ [h]) ! i) = k
        \<and> (\<forall>j. i < j \<and> j < Suc (length hs) \<longrightarrow> mapped_header ((hs @ [h]) ! j) \<noteq> k)"
      show "i = length hs"
      proof (rule ccontr)
        assume "i \<noteq> length hs"
        with r have "i < length hs" by simp
        then have "i < length hs \<and> length hs < Suc (length hs)" by simp
        with r have "mapped_header ((hs @ [h]) ! length hs) \<noteq> k" by blast
        with True show False by simp
      qed
    next
      assume i: "i = length hs"
      have "\<forall>j. i < j \<and> j < Suc (length hs) \<longrightarrow> mapped_header ((hs @ [h]) ! j) \<noteq> k"
        unfolding i by (intro allI impI) linarith
      with True i show "i < Suc (length hs) \<and> mapped_header ((hs @ [h]) ! i) = k
        \<and> (\<forall>j. i < j \<and> j < Suc (length hs) \<longrightarrow> mapped_header ((hs @ [h]) ! j) \<noteq> k)"
        by simp
    qed
    with True show ?thesis by (auto simp: buildHeaderIndex_snoc)
  next
    case False
    have "(i < Suc (length hs) \<and> mapped_header ((hs @ [h]) ! i) = k
     \<and> (\<forall>j. i < j \<and> j < Suc (length hs) \<longrightarrow> mapped_header ((hs @ [h]) ! j) \<noteq> k))
     \<longleftrightarrow> (i < length hs \<and> mapped_header (hs ! i) = k
     \<and> (\<forall>j. i < j \<and> j < length hs \<longrightarrow> mapped_header (hs ! j) \<noteq> k))"
      using False by (auto simp: nth_append less_Suc_eq)
    with False snoc.IH [of i] show ?thesis by (simp add: buildHeaderIndex_snoc)
  qed
qed

text \<open>
  A normal form holds no capital A-Z and no underscore, so \<open>constructor\<close> is the only
  inherited property name it can be.
\<close>

lemma set_trim: "set (trim s) \<subseteq> set s"
proof -
  have "set (dropWhile is_ws (rev (dropWhile is_ws s))) \<subseteq> set (rev (dropWhile is_ws s))"
    by (auto dest: set_dropWhileD)
  also have "\<dots> \<subseteq> set s" by (auto dest: set_dropWhileD)
  finally show ?thesis by (simp add: trim_def)
qed

lemma set_replace_ws_runs: "set (replace_ws_runs r s) \<subseteq> insert r (set s)"
proof (induction r s rule: replace_ws_runs.induct)
  case (1 r)
  then show ?case by simp
next
  case (2 r c cs)
  show ?case
  proof (cases "is_ws c")
    case True
    have "set (dropWhile is_ws cs) \<subseteq> set cs" by (auto dest: set_dropWhileD)
    with 2(1) [OF True] True show ?thesis by auto
  next
    case False
    with 2(2) [OF False] show ?thesis by auto
  qed
qed

lemma toLowerCase_char_not_upper:
  "\<not> (65 \<le> (of_char (toLowerCase_char c) :: nat) \<and> (of_char (toLowerCase_char c) :: nat) \<le> 90)"
proof -
  have lt: "(of_char c :: nat) < 256" by simp
  show ?thesis
    using lt by (auto simp: toLowerCase_char_def Let_def)
qed

lemma normal_form_chars:
  assumes "c \<in> set (normalizeHeaderForMap h)"
  shows "c \<noteq> CHR ''_'' \<and> \<not> (65 \<le> (of_char c :: nat) \<and> (of_char c :: nat) \<le> 90)"
proof -
  let ?m = "map (\<lambda>c. if c = CHR ''_'' \<or> c = CHR ''-'' then CHR '' '' else c) (toLowerCase h)"
  from assms have "c \<in> set (replace_ws_runs (CHR '' '') ?m)"
    using set_trim by (auto simp: normalizeHeaderForMap_def)
  then have "c = CHR '' '' \<or> c \<in> set ?m"
    using set_replace_ws_runs by fastforce
  then show ?thesis
  proof
    assume "c = CHR '' ''"
    then show ?thesis by simp
  next
    assume "c \<in> set ?m"
    then obtain x where "c = CHR '' '' \<or> (c = toLowerCase_char x \<and> c \<noteq> CHR ''_'')"
      by (auto simp: toLowerCase_def split: if_splits)
    then show ?thesis using toLowerCase_char_not_upper by auto
  qed
qed

lemma inherited_only_constructor:
  "map_of Object_prototype (normalizeHeaderForMap h)
     = (if normalizeHeaderForMap h = ''constructor''
        then Some ''function Object() { [native code] }'' else None)"
proof -
  have no: "normalizeHeaderForMap h \<noteq> k"
    if "CHR ''_'' \<in> set k \<or> (\<exists>c\<in>set k. 65 \<le> (of_char c :: nat) \<and> (of_char c :: nat) \<le> 90)" for k
    using that normal_form_chars [of _ h] by metis
  have "normalizeHeaderForMap h \<noteq> ''__defineGetter__''" by (rule no) simp
  moreover have "normalizeHeaderForMap h \<noteq> ''__defineSetter__''" by (rule no) simp
  moreover have "normalizeHeaderForMap h \<noteq> ''hasOwnProperty''" by (rule no) simp
  moreover have "normalizeHeaderForMap h \<noteq> ''__lookupGetter__''" by (rule no) simp
  moreover have "normalizeHeaderForMap h \<noteq> ''__lookupSetter__''" by (rule no) simp
  moreover have "normalizeHeaderForMap h \<noteq> ''isPrototypeOf''" by (rule no) simp
  moreover have "normalizeHeaderForMap h \<noteq> ''propertyIsEnumerable''" by (rule no) simp
  moreover have "normalizeHeaderForMap h \<noteq> ''toString''" by (rule no) simp
  moreover have "normalizeHeaderForMap h \<noteq> ''valueOf''" by (rule no) simp
  moreover have "normalizeHeaderForMap h \<noteq> ''__proto__''" by (rule no) simp
  moreover have "normalizeHeaderForMap h \<noteq> ''toLocaleString''" by (rule no) simp
  ultimately show ?thesis by (simp add: Object_prototype_def)
qed

text \<open>
  C7. The spec: every label goes through the alias table and an unmatched label falls
  back to its normal form with underscores for spaces; the later of two columns with the
  same canonical name wins; Reg No, REGISTER_NO and Registration Number resolve to
  register_no. The code: the index gives a canonical name the last column that maps to it,
  the three labels resolve to register_no, and a label is mapped that way unless its
  normal form is constructor. The label Constructor is not in the alias table and its
  fallback would be constructor, but the lookup finds the constructor that the alias
  table inherits, and the index holds the column under the text of that function: no
  column is found under constructor.
\<close>

theorem C7_header_index_inherited_constructor:
  "(buildHeaderIndex hs k = Some i \<longleftrightarrow>
      i < length hs \<and> mapped_header (hs ! i) = k
      \<and> (\<forall>j. i < j \<and> j < length hs \<longrightarrow> mapped_header (hs ! j) \<noteq> k))
   \<and> mapped_header h =
       (case map_of HEADER_MAP (normalizeHeaderForMap h) of
          Some v \<Rightarrow> v
        | None \<Rightarrow>
            if normalizeHeaderForMap h = ''constructor''
            then ''function Object() { [native code] }''
            else replace_ws_runs (CHR ''_'') (normalizeHeaderForMap h))
   \<and> map mapped_header [''Reg No'', ''REGISTER_NO'', ''Registration Number'']
        = [''register_no'', ''register_no'', ''register_no'']
   \<and> map_of HEADER_MAP (normalizeHeaderForMap ''Constructor'') = None
   \<and> replace_ws_runs (CHR ''_'') (normalizeHeaderForMap ''Constructor'') = ''constructor''
   \<and> mapped_header ''Constructor'' = ''function Object() { [native code] }''
   \<and> buildHeaderIndex [''Constructor''] ''constructor'' = None"
proof (intro conjI)
  show "buildHeaderIndex hs k = Some i \<longleftrightarrow>
      i < length hs \<and> mapped_header (hs ! i) = k
      \<and> (\<forall>j. i < j \<and> j < length hs \<longrightarrow> mapped_header (hs ! j) \<noteq> k)"
    by (rule buildHeaderIndex_last_wins)
next
  show "mapped_header h =
       (case map_of HEADER_MAP (normalizeHeaderForMap h) of
          Some v \<Rightarrow> v
        | None \<Rightarrow>
            if normalizeHeaderForMap h = ''constructor''
            then ''function Object() { [native code] }''
            else replace_ws_runs (CHR ''_'') (normalizeHeaderForMap h))"
  proof (cases "map_of HEADER_MAP (normalizeHeaderForMap h)")
    case None
    then show ?thesis
      unfolding mapped_header_def Let_def inherited_only_constructor by simp
  next
    case (Some v)
    then show ?thesis by (simp add: mapped_header_def Let_def)
  qed
next
  show "map mapped_header [''Reg No'', ''REGISTER_NO'', ''Registration Number'']
        = [''register_no'', ''register_no'', ''register_no'']"
    by code_simp
next
  show "map_of HEADER_MAP (normalizeHeaderForMap ''Constructor'') = None"
    by code_simp
next
  show "replace_ws_runs (CHR ''_'') (normalizeHeaderForMap ''Constructor'') = ''constructor''"
    by code_simp
next
  show c: "mapped_header ''Constructor'' = ''function Object() { [native code] }''"
    by code_simp
next
  show "buildHeaderIndex [''Constructor''] ''constructor'' = None"
    by code_simp
qed

text \<open>
  The theorem at the headers Reg No, Name, REGISTER_NO (the third column wins for
  register_no) and at the unknown label Blood Group.
\<close>

theorem C7_header_index_witness:
  "buildHeaderIndex [''Reg No'', ''Name'', ''REGISTER_NO''] ''register_no'' = Some 2
   \<and> buildHeaderIndex [''Reg No'', ''Name'', ''REGISTER_NO''] ''name'' = Some 1
   \<and> mapped_header ''Blood Group'' = ''blood_group''"
proof -
  have m: "mapped_header ''Reg No'' = ''register_no''" "mapped_header ''Name'' = ''name''"
    "mapped_header ''REGISTER_NO'' = ''register_no''"
    by code_simp+
  have n: "normalizeHeaderForMap ''Blood Group'' = ''blood group''"
    "map_of HEADER_MAP (normalizeHeaderForMap ''Blood Group'') = None"
    "replace_ws_runs (CHR ''_'') (normalizeHeaderForMap ''Blood Group'') = ''blood_group''"
    by code_simp+
  have j2: "\<not> (2 < j \<and> j < Suc (Suc (Suc 0)))" for j :: nat by arith
  have j1: "1 < j \<and> j < Suc (Suc (Suc 0)) \<longleftrightarrow> j = 2" for j :: nat by arith
  from C7_header_index_inherited_constructor
    [of "[''Reg No'', ''Name'', ''REGISTER_NO'']" "''register_no''" 2 "''Blood Group''"]
  have a: "buildHeaderIndex [''Reg No'', ''Name'', ''REGISTER_NO''] ''register_no'' = Some 2"
    and c: "mapped_header ''Blood Group'' = ''blood_group''"
    using m n j2 by simp_all
  from C7_header_index_inherited_constructor
    [of "[''Reg No'', ''Name'', ''REGISTER_NO'']" "''name''" 1 "''Blood Group''"]
  have b: "buildHeaderIndex [''Reg No'', ''Name'', ''REGISTER_NO''] ''name'' = Some 1"
    using m j1 by simp
  from a b c show ?thesis by simp
qed

end
